theory Spec2Isabelle
  imports Complex_Main "HOL-Library.Monad_Syntax"
begin

section \<open>Data model\<close>

text \<open>
  The FITS reader of \<^verbatim>\<open>MWgaldust.c\<close> works on raw byte buffers.  A byte (\<^verbatim>\<open>uchar\<close>) is a
  \<^typ>\<open>char\<close>; a buffer is a list of bytes and a pointer into it is an index.  A header is
  the pair of the card count \<^verbatim>\<open>nHead\<close> and the buffer \<^verbatim>\<open>pHead\<close>, card \<open>i\<close> being the 80
  bytes from offset \<open>80 * i\<close>.  A value of the C types \<^verbatim>\<open>float\<close> and \<^verbatim>\<open>double\<close> is the
  \<^typ>\<open>real\<close> number it stands for; infinities and NaN are outside the model.  The C types
  \<^verbatim>\<open>int\<close>, \<^verbatim>\<open>HSIZE\<close> and \<^verbatim>\<open>DSIZE\<close> are modelled as \<^typ>\<open>int\<close> or \<^typ>\<open>nat\<close> without
  wrap-around.
\<close>

type_synonym uchar = char

definition TRUE_MWDUST :: int where "TRUE_MWDUST = 1"
definition FALSE_MWDUST :: int where "FALSE_MWDUST = 0"

definition NUL :: uchar where "NUL = CHR 0x00"

text \<open>
  What the C implementation leaves open: how the bytes of an element are reinterpreted by
  the pointer casts of \<^verbatim>\<open>fits_get_rval_\<close> (native byte order, \<^verbatim>\<open>sizeof(long)\<close>, the float
  formats), how a number is converted to \<^verbatim>\<open>float\<close> or \<^verbatim>\<open>double\<close> (\<open>to_float\<close>,
  \<open>to_double\<close>: the nearest value of the type), what the mathematical library returns for
  \<^verbatim>\<open>sin\<close>, \<^verbatim>\<open>cos\<close> and \<^verbatim>\<open>sqrt\<close> of a \<^verbatim>\<open>double\<close>, and what \<^verbatim>\<open>malloc\<close> leaves in fresh
  memory.  Arithmetic on \<^verbatim>\<open>float\<close> operands is
  taken to round each exact result to \<^verbatim>\<open>float\<close>, and on \<^verbatim>\<open>double\<close> operands to \<^verbatim>\<open>double\<close>
  (\<^verbatim>\<open>FLT_EVAL_METHOD\<close> 0, no contraction).
\<close>

record platform =
  sizeof_long :: nat
  dec_short :: "uchar list \<Rightarrow> int"
  dec_long :: "uchar list \<Rightarrow> int"
  dec_float :: "uchar list \<Rightarrow> real"
  dec_double :: "uchar list \<Rightarrow> real"
  to_float :: "real \<Rightarrow> real"
  to_double :: "real \<Rightarrow> real"
  c_sin :: "real \<Rightarrow> real"
  c_cos :: "real \<Rightarrow> real"
  c_sqrt :: "real \<Rightarrow> real"
  fresh :: "nat \<Rightarrow> uchar"
  LITTLE_ENDIAN :: bool

definition ccalloc :: "platform \<Rightarrow> nat \<Rightarrow> uchar list" where
  "ccalloc P memSize = map (fresh P) [0..<memSize]"

text \<open>
  A little-endian LP64 platform with IEEE 754 floats, and its ILP32 sibling, for running
  the model on concrete inputs.  \<open>float_round\<close> and \<open>double_round\<close> round to the nearest
  binary32 and binary64 value, ties to even, with the subnormal range at the bottom; a
  number beyond the largest value of the type is rounded in the top binade instead of
  becoming an infinity.  The library functions are taken to round the exact result.
\<close>

definition round_half_even :: "real \<Rightarrow> int" where
  "round_half_even r =
     (let f = \<lfloor>r\<rfloor>; d = r - real_of_int f
      in if d < 1 / 2 then f else if 1 / 2 < d then f + 1 else if even f then f else f + 1)"

fun exp_up :: "nat \<Rightarrow> real \<Rightarrow> nat" where
  "exp_up 0 a = 0"
| "exp_up (Suc n) a = (if a < 2 then 0 else Suc (exp_up n (a / 2)))"

fun exp_down :: "nat \<Rightarrow> real \<Rightarrow> nat" where
  "exp_down 0 a = 0"
| "exp_down (Suc n) a = (if 1 \<le> a then 0 else Suc (exp_down n (a * 2)))"

definition ieee_round :: "nat \<Rightarrow> nat \<Rightarrow> nat \<Rightarrow> real \<Rightarrow> real" where
  "ieee_round mbits emin emax x =
     (let a = \<bar>x\<bar>;
          e = (if 1 \<le> a then int (exp_up emax a) else - int (exp_down emin a));
          q = (if int mbits \<le> e then 2 ^ nat (e - int mbits) else 1 / 2 ^ nat (int mbits - e));
          m = round_half_even (a / q)
      in if x < 0 then - (real_of_int m * q) else real_of_int m * q)"

definition float_round :: "real \<Rightarrow> real" where
  "float_round x = ieee_round 23 126 127 x"

definition double_round :: "real \<Rightarrow> real" where
  "double_round x = ieee_round 52 1022 1023 x"

definition le_sin :: "real \<Rightarrow> real" where
  "le_sin x = double_round (sin x)"

definition le_cos :: "real \<Rightarrow> real" where
  "le_cos x = double_round (cos x)"

definition le_sqrt :: "real \<Rightarrow> real" where
  "le_sqrt x = double_round (sqrt x)"

definition le_nat :: "uchar list \<Rightarrow> nat" where
  "le_nat bs = foldr (\<lambda>c n. of_char c + 256 * n) bs 0"

definition twos_complement :: "nat \<Rightarrow> nat \<Rightarrow> int" where
  "twos_complement bits n = (if n < 2 ^ (bits - 1) then int n else int n - 2 ^ bits)"

definition ieee_value :: "nat \<Rightarrow> nat \<Rightarrow> nat \<Rightarrow> real" where
  "ieee_value ebits mbits n =
     (let m = n mod 2 ^ mbits;
          e = (n div 2 ^ mbits) mod 2 ^ ebits;
          s = n div 2 ^ (mbits + ebits);
          bias = 2 ^ (ebits - 1) - 1 + mbits;
          mag = (if e = 0 then real m * 2 / 2 ^ bias else real (2 ^ mbits + m) * 2 ^ e / 2 ^ bias)
      in if s = 0 then mag else - mag)"

definition le_short :: "uchar list \<Rightarrow> int" where
  "le_short bs = twos_complement 16 (le_nat bs)"

definition le_long :: "uchar list \<Rightarrow> int" where
  "le_long bs = twos_complement (8 * length bs) (le_nat bs)"

definition le_float :: "uchar list \<Rightarrow> real" where
  "le_float bs = ieee_value 8 23 (le_nat bs)"

definition le_double :: "uchar list \<Rightarrow> real" where
  "le_double bs = ieee_value 11 52 (le_nat bs)"

definition hash_fill :: "nat \<Rightarrow> uchar" where
  "hash_fill i = CHR ''#''"

definition le_platform :: platform where
  "le_platform =
     \<lparr> sizeof_long = 8, dec_short = le_short, dec_long = le_long, dec_float = le_float,
       dec_double = le_double, to_float = float_round, to_double = double_round,
       c_sin = le_sin, c_cos = le_cos, c_sqrt = le_sqrt, fresh = hash_fill,
       LITTLE_ENDIAN = True \<rparr>"

definition ilp32_platform :: platform where
  "ilp32_platform = le_platform \<lparr> sizeof_long := 4 \<rparr>"

section \<open>C library routines used by the card store\<close>

text \<open>
  \<^verbatim>\<open>strncmp\<close>: a buffer read as a C string ends at its end or at the first NUL.
\<close>

definition byte_at :: "uchar list \<Rightarrow> nat" where
  "byte_at s = (case s of [] \<Rightarrow> 0 | c # _ \<Rightarrow> of_char c)"

fun strncmp :: "uchar list \<Rightarrow> uchar list \<Rightarrow> nat \<Rightarrow> int" where
  "strncmp s t 0 = 0"
| "strncmp s t (Suc n) =
     (if byte_at s \<noteq> byte_at t then int (byte_at s) - int (byte_at t)
      else if byte_at s = 0 then 0
      else strncmp (tl s) (tl t) n)"

section \<open>Card store\<close>

text \<open>
  The scan \<^verbatim>\<open>for (iCard=0; (iCard<*pNHead) && (strncmp(pLabel, &pHead[iCard*80], 8)!=0); iCard++);\<close>
  shared by \<^verbatim>\<open>fits_find_card_\<close> and the typed accessors.
\<close>

function card_scan :: "uchar list \<Rightarrow> nat \<Rightarrow> uchar list \<Rightarrow> nat \<Rightarrow> nat" where
  "card_scan pLabel nHead pHead iCard =
     (if iCard < nHead \<and> strncmp pLabel (drop (iCard * 80) pHead) 8 \<noteq> 0
      then card_scan pLabel nHead pHead (iCard + 1)
      else iCard)"
  by pat_completeness auto
termination
  by (relation "measure (\<lambda>(pLabel, nHead, pHead, iCard). nHead - iCard)") auto

declare card_scan.simps [simp del]

definition fits_find_card :: "uchar list \<Rightarrow> nat \<Rightarrow> uchar list \<Rightarrow> nat" where
  "fits_find_card pLabel nHead pHead =
     (if nHead = 0 then 0 else card_scan pLabel nHead pHead 0)"

text \<open>
  \<^verbatim>\<open>fits_get_card_string_\<close>.  The loop
  \<^verbatim>\<open>while (iChar<80 && (pTemp[iChar-11]=pHead[iCard*80+iChar]) != '\'') iChar++;\<close>
  stores each byte before it tests it.
\<close>

definition quote :: uchar where "quote = CHR 0x27"
definition blank :: uchar where "blank = CHR '' ''"
definition newline :: uchar where "newline = CHR 0x0A"



text \<open>The C string held by a buffer, and \<^verbatim>\<open>strlen\<close>, \<^verbatim>\<open>strcpy\<close> and \<^verbatim>\<open>memmove\<close>.\<close>

definition c_string :: "uchar list \<Rightarrow> uchar list" where
  "c_string buf = takeWhile (\<lambda>c. c \<noteq> NUL) buf"



definition memmove :: "uchar list \<Rightarrow> nat \<Rightarrow> uchar list \<Rightarrow> uchar list" where
  "memmove dst off src = take off dst @ src @ drop (off + length src) dst"



text \<open>
  \<^verbatim>\<open>fits_string_to_card_\<close>: 80 bytes are copied, everything from the first NUL or newline on
  is blanked, and the 8 label bytes are put in upper case (\<^verbatim>\<open>toupper\<close> of the C locale).
\<close>

definition toupper :: "uchar \<Rightarrow> uchar" where
  "toupper c =
     (if 97 \<le> (of_char c :: nat) \<and> (of_char c :: nat) \<le> 122 then char_of (of_char c - 32 :: nat)
      else c)"

fun blank_from_null :: "bool \<Rightarrow> uchar list \<Rightarrow> uchar list" where
  "blank_from_null qNull [] = []"
| "blank_from_null qNull (c # cs) =
     (let qNull' = (qNull \<or> c = NUL \<or> c = newline)
      in (if qNull' then blank else c) # blank_from_null qNull' cs)"

definition fits_string_to_card :: "uchar list \<Rightarrow> uchar list" where
  "fits_string_to_card pString =
     (let pCard = blank_from_null False (take 80 pString)
      in map toupper (take 8 pCard) @ drop 8 pCard)"

definition card_end :: "uchar list" where
  "card_end = ''END'' @ replicate 77 blank"

text \<open>
  \<^verbatim>\<open>fits_add_card_\<close> returns the card number, the new count and the new buffer.  A header
  whose count is a multiple of 36 is moved to a fresh buffer with room for 36 more cards.
\<close>

definition fits_add_card ::
  "platform \<Rightarrow> uchar list \<Rightarrow> nat \<Rightarrow> uchar list \<Rightarrow> nat \<times> nat \<times> uchar list" where
  "fits_add_card P pCard nHead pHead =
     (let pCardTemp = fits_string_to_card pCard;
          numCardEnd = fits_find_card card_end nHead pHead;
          pHead1 = (if nHead mod 36 = 0 then
                      (let pNewHeader = ccalloc P ((36 + nHead) * 80)
                       in if nHead > 0 then memmove pNewHeader 0 (take (nHead * 80) pHead)
                          else pNewHeader)
                    else pHead)
      in if nHead > 0 \<and> numCardEnd < nHead then
           (let pHead2 = memmove pHead1 ((numCardEnd + 1) * 80)
                           (take 80 (drop (numCardEnd * 80) pHead1));
                pHead3 = memmove pHead2 (numCardEnd * 80) pCardTemp
            in (numCardEnd, nHead + 1, pHead3))
         else (nHead, nHead + 1, memmove pHead1 (nHead * 80) pCardTemp))"

text \<open>
  The C library's \<^verbatim>\<open>sprintf\<close> for the formats \<^verbatim>\<open>%-8.8s\<close> and \<^verbatim>\<open>%20d\<close>, and \<^verbatim>\<open>sscanf\<close> for
  \<^verbatim>\<open>%d\<close> and \<^verbatim>\<open>%f\<close> (decimal notation with an optional exponent).  A local array
  \<^verbatim>\<open>pCardTemp[81]\<close> holds the formatted string, its NUL and whatever was there before.
\<close>

definition digit_char :: "nat \<Rightarrow> uchar" where
  "digit_char d = char_of (48 + d)"

function show_nat :: "nat \<Rightarrow> uchar list" where
  "show_nat n = (if n < 10 then [digit_char n] else show_nat (n div 10) @ [digit_char (n mod 10)])"
  by pat_completeness auto
termination
  by (relation "measure id") auto

declare show_nat.simps [simp del]

definition show_int :: "int \<Rightarrow> uchar list" where
  "show_int i = (if i < 0 then CHR ''-'' # show_nat (nat (- i)) else show_nat (nat i))"

definition fmt_s_8_8 :: "uchar list \<Rightarrow> uchar list" where
  "fmt_s_8_8 pLabel = (let s = take 8 (c_string pLabel) in s @ replicate (8 - length s) blank)"

definition fmt_d_20 :: "int \<Rightarrow> uchar list" where
  "fmt_d_20 i = (let s = show_int i in replicate (20 - length s) blank @ s)"

definition local_array :: "platform \<Rightarrow> nat \<Rightarrow> uchar list \<Rightarrow> uchar list" where
  "local_array P n s = take n (s @ [NUL] @ ccalloc P n)"

definition isspace :: "uchar \<Rightarrow> bool" where
  "isspace c = ((of_char c :: nat) = 32 \<or> (9 \<le> (of_char c :: nat) \<and> (of_char c :: nat) \<le> 13))"

definition isdigit :: "uchar \<Rightarrow> bool" where
  "isdigit c = (48 \<le> (of_char c :: nat) \<and> (of_char c :: nat) \<le> 57)"

fun digits_value :: "nat \<Rightarrow> uchar list \<Rightarrow> nat" where
  "digits_value acc [] = acc"
| "digits_value acc (c # cs) = digits_value (10 * acc + (of_char c - 48)) cs"

definition scan_sign :: "uchar list \<Rightarrow> bool \<times> uchar list" where
  "scan_sign s =
     (case s of
        [] \<Rightarrow> (False, [])
      | c # cs \<Rightarrow> if c = CHR ''-'' then (True, cs) else if c = CHR ''+'' then (False, cs)
                  else (False, s))"

definition sscanf_d :: "uchar list \<Rightarrow> int option" where
  "sscanf_d buf =
     (let (neg, s) = scan_sign (dropWhile isspace (c_string buf));
          ds = takeWhile isdigit s
      in if ds = [] then None
         else Some (if neg then - int (digits_value 0 ds) else int (digits_value 0 ds)))"

text \<open>
  \<^verbatim>\<open>%f\<close> is modelled for decimal numbers with an optional, well-formed exponent; the
  result is the nearest \<^verbatim>\<open>float\<close>.  For any other text (a hexadecimal number, an infinity,
  a NaN, an exponent letter without digits) the model gives \<open>None\<close>.
\<close>

definition scan_exponent :: "uchar list \<Rightarrow> int option" where
  "scan_exponent s =
     (case s of
        [] \<Rightarrow> Some 0
      | c # cs \<Rightarrow>
          if c = CHR ''e'' \<or> c = CHR ''E'' then
            (let (neg, t) = scan_sign cs; ds = takeWhile isdigit t
             in if ds = [] then None
                else Some (if neg then - int (digits_value 0 ds) else int (digits_value 0 ds)))
          else if c = CHR ''x'' \<or> c = CHR ''X'' then None
          else Some 0)"

definition sscanf_f :: "platform \<Rightarrow> uchar list \<Rightarrow> real option" where
  "sscanf_f P buf =
     (let (neg, s) = scan_sign (dropWhile isspace (c_string buf));
          ip = takeWhile isdigit s;
          s1 = dropWhile isdigit s;
          fp = (case s1 of [] \<Rightarrow> [] | c # cs \<Rightarrow> if c = CHR ''.'' then takeWhile isdigit cs else []);
          s2 = (case s1 of [] \<Rightarrow> [] | c # cs \<Rightarrow> if c = CHR ''.'' then dropWhile isdigit cs else s1);
          mant = real (digits_value 0 (ip @ fp)) / 10 ^ length fp
      in if ip = [] \<and> fp = [] then None
         else
           (case scan_exponent s2 of
              None \<Rightarrow> None
            | Some ex \<Rightarrow>
                (let mag = (if 0 \<le> ex then mant * 10 ^ nat ex else mant / 10 ^ nat (- ex))
                 in Some (to_float P (if neg then - mag else mag)))))"

text \<open>
  The typed accessors.  The second component is the value stored through the output
  pointer, \<open>None\<close> when nothing is stored and the caller's variable keeps what it held
  (or when what is stored is outside the model).
\<close>

definition fits_get_card_ival :: "uchar list \<Rightarrow> nat \<Rightarrow> uchar list \<Rightarrow> int \<times> int option" where
  "fits_get_card_ival pLabel nHead pHead =
     (let iCard = card_scan pLabel nHead pHead 0
      in if iCard < nHead then
           (let pTemp = take 20 (drop (iCard * 80 + 10) pHead) @ [NUL]
            in (TRUE_MWDUST, sscanf_d pTemp))
         else (FALSE_MWDUST, None))"

definition fits_get_card_rval ::
  "platform \<Rightarrow> uchar list \<Rightarrow> nat \<Rightarrow> uchar list \<Rightarrow> int \<times> real option" where
  "fits_get_card_rval P pLabel nHead pHead =
     (let iCard = card_scan pLabel nHead pHead 0
      in if iCard < nHead then
           (let pTemp = take 20 (drop (iCard * 80 + 10) pHead) @ [NUL]
            in (TRUE_MWDUST, sscanf_f P pTemp))
         else (FALSE_MWDUST, None))"

definition fits_add_card_ival ::
  "platform \<Rightarrow> int \<Rightarrow> uchar list \<Rightarrow> nat \<Rightarrow> uchar list \<Rightarrow> nat \<times> nat \<times> uchar list" where
  "fits_add_card_ival P ival pLabel nHead pHead =
     (let pCardTemp = local_array P 81 (fmt_s_8_8 pLabel @ ''= '' @ fmt_d_20 ival)
      in fits_add_card P pCardTemp nHead pHead)"

section \<open>Binary data layer\<close>

definition fits_size_from_bitpix :: "int \<Rightarrow> int" where
  "fits_size_from_bitpix bitpix =
     (if bitpix = 8 then 1
      else if bitpix = 16 then 2
      else if bitpix = 32 then 4
      else if bitpix = 64 then 8
      else if bitpix = -16 then 2
      else if bitpix = -32 then 4
      else if bitpix = -64 then 8
      else 0)"

text \<open>
  Element \<open>iloc\<close> of a buffer viewed as an array of \<open>w\<close>-byte objects; reading outside the
  buffer is undefined in C and \<open>None\<close> here.
\<close>

definition elem :: "nat \<Rightarrow> uchar list \<Rightarrow> nat \<Rightarrow> uchar list option" where
  "elem w pData iloc =
     (if w * iloc + w \<le> length pData then Some (take w (drop (w * iloc) pData)) else None)"

text \<open>
  \<^verbatim>\<open>fits_get_rval_\<close> returns a \<^verbatim>\<open>float\<close>.  In \<^verbatim>\<open>pIdata16[*pIloc] * (*pBscale) + (*pBzero)\<close>
  the integer is converted to \<^verbatim>\<open>float\<close>, and the product and the sum are \<^verbatim>\<open>float\<close>
  operations; the \<^verbatim>\<open>double\<close> and the byte of the codes -64 and -8 are converted by the
  assignment.  \<^verbatim>\<open>pIdata32\<close> is a \<^verbatim>\<open>long int *\<close>, so for the code 32 the element is
  \<^verbatim>\<open>sizeof(long)\<close> bytes wide.
\<close>

definition scale_offset :: "platform \<Rightarrow> int \<Rightarrow> real \<Rightarrow> real \<Rightarrow> real" where
  "scale_offset P ival bscale bzero =
     to_float P (to_float P (to_float P (real_of_int ival) * bscale) + bzero)"

definition fits_get_rval ::
  "platform \<Rightarrow> nat \<Rightarrow> int \<Rightarrow> real \<Rightarrow> real \<Rightarrow> uchar list \<Rightarrow> real option" where
  "fits_get_rval P iloc bitpix bscale bzero pData =
     (if bitpix = -32 then map_option (dec_float P) (elem 4 pData iloc)
      else if bitpix = 16 then
        map_option (\<lambda>e. scale_offset P (dec_short P e) bscale bzero) (elem 2 pData iloc)
      else if bitpix = 32 then
        map_option (\<lambda>e. scale_offset P (dec_long P e) bscale bzero)
          (elem (sizeof_long P) pData iloc)
      else if bitpix = -64 then
        map_option (\<lambda>e. to_float P (dec_double P e)) (elem 8 pData iloc)
      else if bitpix = 8 then
        map_option (\<lambda>e. scale_offset P (int (byte_at e)) bscale bzero) (elem 1 pData iloc)
      else if bitpix = -8 then
        map_option (\<lambda>e. to_float P (real (byte_at e))) (elem 1 pData iloc)
      else Some 0)"

text \<open>\<^verbatim>\<open>fits_bswap2\<close> exchanges the bytes at two places of the buffer.\<close>

definition fits_bswap2 :: "nat \<Rightarrow> nat \<Rightarrow> uchar list \<Rightarrow> uchar list" where
  "fits_bswap2 pc1 pc2 pData = (let ct = pData ! pc1 in (pData[pc1 := pData ! pc2])[pc2 := ct])"

definition bswap_elem2 :: "nat \<Rightarrow> uchar list \<Rightarrow> uchar list" where
  "bswap_elem2 idata pData = fits_bswap2 (2 * idata) (2 * idata + 1) pData"

definition bswap_elem4 :: "nat \<Rightarrow> uchar list \<Rightarrow> uchar list" where
  "bswap_elem4 idata pData =
     fits_bswap2 (4 * idata + 1) (4 * idata + 2) (fits_bswap2 (4 * idata) (4 * idata + 3) pData)"

definition bswap_elem8 :: "nat \<Rightarrow> uchar list \<Rightarrow> uchar list" where
  "bswap_elem8 idata pData =
     fits_bswap2 (8 * idata + 3) (8 * idata + 4)
       (fits_bswap2 (8 * idata + 2) (8 * idata + 5)
         (fits_bswap2 (8 * idata + 1) (8 * idata + 6)
           (fits_bswap2 (8 * idata) (8 * idata + 7) pData)))"

text \<open>
  \<^verbatim>\<open>fits_byteswap\<close>: the loops \<^verbatim>\<open>for (idata=0; idata < nData; idata++)\<close> are folds over
  \<open>[0..<nData]\<close>.
\<close>

definition fits_byteswap :: "int \<Rightarrow> nat \<Rightarrow> uchar list \<Rightarrow> uchar list" where
  "fits_byteswap bitpix nData pData =
     (let ibits = \<bar>bitpix\<bar> in
      if ibits = 16 then fold bswap_elem2 [0..<nData] pData
      else if ibits = 32 then fold bswap_elem4 [0..<nData] pData
      else if ibits = 64 then fold bswap_elem8 [0..<nData] pData
      else pData)"


section \<open>Projection transform\<close>

definition label_naxis :: "uchar list" where "label_naxis = ''NAXIS   ''"
definition label_bitpix :: "uchar list" where "label_bitpix = ''BITPIX  ''"
definition label_bscale :: "uchar list" where "label_bscale = ''BSCALE  ''"
definition label_bzero :: "uchar list" where "label_bzero = ''BZERO   ''"









section \<open>Reading a file\<close>

text \<open>
  An open stream is the contents of its file and the position that \<^verbatim>\<open>ftell\<close> reports.
  \<^verbatim>\<open>fgetc\<close> at or after the end returns \<^verbatim>\<open>EOF\<close>, stored in a \<^verbatim>\<open>uchar\<close> as \<open>0xFF\<close>, and does
  not move; \<^verbatim>\<open>fseek(f, off, 0)\<close> fails, leaving the position, when \<open>off\<close> is negative and
  may move past the end; \<^verbatim>\<open>fread\<close> returns the number of complete elements it could read
  and consumes what is there of the rest.
\<close>

definition fgetc :: "uchar list \<Rightarrow> nat \<Rightarrow> uchar \<times> nat" where
  "fgetc file pos = (if pos < length file then (file ! pos, pos + 1) else (CHR 0xFF, pos))"

definition fseek :: "nat \<Rightarrow> int \<Rightarrow> nat" where
  "fseek pos off = (if off < 0 then pos else nat off)"

definition fread :: "uchar list \<Rightarrow> nat \<Rightarrow> nat \<Rightarrow> nat \<Rightarrow> nat \<times> uchar list \<times> nat" where
  "fread file pos esize nmemb =
     (if esize = 0 \<or> nmemb = 0 then (0, [], pos)
      else
        (let avail = length file - pos; k = min nmemb (avail div esize)
         in (k, take (k * esize) (drop pos file), pos + min (nmemb * esize) avail)))"

text \<open>
  \<^verbatim>\<open>fits_get_next_card_\<close> reads 80 bytes and returns \<^verbatim>\<open>strncmp(card_end, pCard, 8)\<close>.
\<close>

fun fgetc_n :: "nat \<Rightarrow> uchar list \<Rightarrow> nat \<Rightarrow> uchar list \<times> nat" where
  "fgetc_n 0 file pos = ([], pos)"
| "fgetc_n (Suc n) file pos =
     (let (c, pos') = fgetc file pos; (cs, pos'') = fgetc_n n file pos' in (c # cs, pos''))"

definition fits_get_next_card :: "uchar list \<Rightarrow> nat \<Rightarrow> int \<times> nat" where
  "fits_get_next_card file pos =
     (let (pCard, pos') = fgetc_n 80 file pos in (strncmp card_end pCard 8, pos'))"

text \<open>
  \<^verbatim>\<open>fits_skip_header_\<close>: the loop \<^verbatim>\<open>while (fits_get_next_card_(pFilenum, pCard));\<close> runs until
  an \<^verbatim>\<open>END\<close> card is read, for ever when there is none; the rest of the 2880-byte block
  is then read card by card.
\<close>

partial_function (option) skip_cards :: "uchar list \<Rightarrow> nat \<Rightarrow> nat option" where
  "skip_cards file pos =
     (let (r, pos') = fits_get_next_card file pos
      in if r \<noteq> 0 then skip_cards file pos' else Some pos')"

definition fits_skip_header :: "uchar list \<Rightarrow> nat \<Rightarrow> nat option" where
  "fits_skip_header file pos =
     do {
       pos1 \<leftarrow> skip_cards file pos;
       let jCard = (pos1 mod 2880) div 80;
       Some (if jCard \<noteq> 0
             then fold (\<lambda>iCard p. snd (fits_get_next_card file p)) [jCard..<36] pos1
             else pos1)
     }"

text \<open>
  \<^verbatim>\<open>fits_compute_axes_\<close>.  The label of axis \<open>k\<close> is \<^verbatim>\<open>sprintf(pLabel_temp, "NAXIS%d  ", k)\<close>
  in a buffer of 9 bytes, which ten or more axes overflow.  The variable \<^verbatim>\<open>ival\<close> is
  shared by the iterations, so an axis without a card takes the extent of the axis before
  it, and the first axis an indeterminate one.
\<close>

definition axis_label :: "nat \<Rightarrow> uchar list" where
  "axis_label k = ''NAXIS'' @ show_nat k @ ''  ''"

fun axes_loop :: "nat \<Rightarrow> uchar list \<Rightarrow> nat list \<Rightarrow> int option \<Rightarrow> int list option" where
  "axes_loop nHead pHead [] ival = Some []"
| "axes_loop nHead pHead (iAxis # rest) ival =
     (let ival' = (case snd (fits_get_card_ival (axis_label (iAxis + 1)) nHead pHead) of
                     None \<Rightarrow> ival | Some v \<Rightarrow> Some v)
      in do {
           v \<leftarrow> ival';
           vs \<leftarrow> axes_loop nHead pHead rest ival';
           Some (v # vs)
         })"

definition fits_compute_axes :: "nat \<Rightarrow> uchar list \<Rightarrow> (int \<times> int list) option" where
  "fits_compute_axes nHead pHead =
     do {
       numAxes \<leftarrow> snd (fits_get_card_ival label_naxis nHead pHead);
       (if numAxes > 0 then
          (if numAxes \<ge> 10 then None
           else map_option (\<lambda>pNaxis. (numAxes, pNaxis))
                  (axes_loop nHead pHead [0..<nat numAxes] None))
        else Some (numAxes, []))
     }"

text \<open>
  \<^verbatim>\<open>fits_read_subimg1\<close> works on the stream position, the count \<^verbatim>\<open>*pNVal\<close> and the buffer
  \<^verbatim>\<open>pData\<close>.  The result is \<open>None\<close> where the C code indexes an array at \<open>-1\<close>, passes a
  negative count to \<^verbatim>\<open>fread\<close> or writes past the end of \<^verbatim>\<open>pData\<close>.
\<close>

type_synonym rstate = "nat \<times> int \<times> uchar list"

definition skip_points :: "int \<Rightarrow> int \<Rightarrow> nat \<Rightarrow> int list \<Rightarrow> rstate \<Rightarrow> rstate" where
  "skip_points esize n0 nel pNaxis s =
     (case s of (pos, nVal, pData) \<Rightarrow>
        (let nskip = fold (\<lambda>ii nskip. nskip * pNaxis ! ii) [0..<nel - 1] n0
         in (fseek pos (int pos + esize * nskip), nVal, pData)))"

definition read_run :: "uchar list \<Rightarrow> int \<Rightarrow> int \<Rightarrow> rstate \<Rightarrow> rstate option" where
  "read_run file esize nread s =
     (case s of (pos, nVal, pData) \<Rightarrow>
        if nread < 0 \<or> nVal < 0 then None
        else
          (let (k, bytes, pos') = fread file pos (nat esize) (nat nread)
           in if nat nVal * nat esize + length bytes \<le> length pData
              then Some (pos', nVal + int k, memmove pData (nat nVal * nat esize) bytes)
              else None))"

fun repeat_opt :: "nat \<Rightarrow> ('s \<Rightarrow> 's option) \<Rightarrow> 's \<Rightarrow> 's option" where
  "repeat_opt 0 body s = Some s"
| "repeat_opt (Suc n) body s = (case body s of None \<Rightarrow> None | Some s' \<Rightarrow> repeat_opt n body s')"

primrec fits_read_subimg1 ::
  "nat \<Rightarrow> int list \<Rightarrow> int list \<Rightarrow> int list \<Rightarrow> uchar list \<Rightarrow> int \<Rightarrow> rstate \<Rightarrow> rstate option" where
  "fits_read_subimg1 0 pNaxis pStart pEnd file bitpix s = None"
| "fits_read_subimg1 (Suc m) pNaxis pStart pEnd file bitpix s =
     (let esize = fits_size_from_bitpix bitpix;
          s1 = skip_points esize (pStart ! m) (Suc m) pNaxis s
      in do {
           s2 \<leftarrow> (if Suc m > 1
                  then repeat_opt (nat (pEnd ! m - pStart ! m + 1))
                         (fits_read_subimg1 m pNaxis pStart pEnd file bitpix) s1
                  else read_run file esize (pEnd ! 0 - pStart ! 0 + 1) s1);
           Some (skip_points esize (pNaxis ! m - pEnd ! m - 1) (Suc m) pNaxis s2)
         })"

text \<open>
  \<^verbatim>\<open>fits_read_subimg_\<close> returns the deficit, the count \<^verbatim>\<open>*pNVal\<close> and the values read, an
  indeterminate value being \<open>None\<close>.  A file that cannot be opened leaves a null stream,
  which the code reads from.
\<close>

definition fits_read_subimg ::
  "platform \<Rightarrow> uchar list option \<Rightarrow> nat \<Rightarrow> uchar list \<Rightarrow> int list \<Rightarrow> int list \<Rightarrow>
   (int \<times> int \<times> real option list) option" where
  "fits_read_subimg P pFile nHead pHead pStart pEnd =
     do {
       file \<leftarrow> pFile;
       pos \<leftarrow> fits_skip_header file 0;
       bitpix \<leftarrow> snd (fits_get_card_ival label_bitpix nHead pHead);
       (numAxes, pNaxis) \<leftarrow> fits_compute_axes nHead pHead;
       (if length pStart < nat numAxes \<or> length pEnd < nat numAxes then None
        else
          do {
            let nExpect = fold (\<lambda>iAxis n. n * (pEnd ! iAxis - pStart ! iAxis + 1))
                            [0..<nat numAxes] 1;
            let esize = fits_size_from_bitpix bitpix;
            let pData = ccalloc P (nat (esize * nExpect));
            (pos', nVal, pData) \<leftarrow>
              fits_read_subimg1 (nat numAxes) pNaxis pStart pEnd file bitpix (pos, 0, pData);
            let pData = (if LITTLE_ENDIAN P then fits_byteswap bitpix (nat nVal) pData
                         else pData);
            let (q1, bscale) = fits_get_card_rval P label_bscale nHead pHead;
            let bscale = (if q1 = FALSE_MWDUST then Some 1 else bscale);
            let (q2, bzero) = fits_get_card_rval P label_bzero nHead pHead;
            let bzero = (if q2 = FALSE_MWDUST then Some 0 else bzero);
            let ppVal = map (\<lambda>iloc.
                          if bitpix = - 32 then fits_get_rval P iloc bitpix 1 0 pData
                          else do { bscale \<leftarrow> bscale; bzero \<leftarrow> bzero;
                                    fits_get_rval P iloc bitpix bscale bzero pData })
                        [0..<nat nVal];
            Some (nExpect - nVal, nVal, ppVal)
          })
     }"

text \<open>
  The number of elements of the window \<open>[pStart, pEnd]\<close> over the first \<open>n\<close> axes, and the
  number of elements of the image over them.
\<close>

definition window_count :: "int list \<Rightarrow> int list \<Rightarrow> nat \<Rightarrow> int" where
  "window_count pStart pEnd n = (\<Prod>k<n. pEnd ! k - pStart ! k + 1)"

definition axes_count :: "int list \<Rightarrow> nat \<Rightarrow> int" where
  "axes_count pNaxis n = (\<Prod>k<n. pNaxis ! k)"

text \<open>
  The offset, in elements, of the last element of the window from the start of the data.
\<close>

definition last_offset :: "int list \<Rightarrow> int list \<Rightarrow> nat \<Rightarrow> int" where
  "last_offset pNaxis pEnd n = (\<Sum>k<n. pEnd ! k * axes_count pNaxis k)"

section \<open>Sample inputs\<close>

text \<open>
  Headers written as lists of card texts, each padded with blanks to 80 bytes, and the
  position of the first card that \<^verbatim>\<open>strncmp\<close> finds equal to a label.
\<close>

definition card :: "uchar list \<Rightarrow> uchar list" where
  "card s = s @ replicate (80 - length s) blank"

definition header_of :: "uchar list list \<Rightarrow> uchar list" where
  "header_of cs = concat (map card cs)"

fun first_card :: "uchar list \<Rightarrow> uchar list list \<Rightarrow> nat" where
  "first_card pLabel [] = 0"
| "first_card pLabel (c # cs) =
     (if strncmp pLabel (card c) 8 = 0 then 0 else Suc (first_card pLabel cs))"

definition cards_lambert :: "uchar list \<Rightarrow> uchar list \<Rightarrow> uchar list list" where
  "cards_lambert crpix1 crpix2 =
     [''NAXIS   =                    2'',
      ''NAXIS1  =                    4'',
      ''NAXIS2  =                    4'',
      ''BITPIX  =                  -32'',
      ''CTYPE1  = '' @ [quote] @ ''LAMBERT--X'' @ [quote],
      ''CTYPE2  = '' @ [quote] @ ''LAMBERT--Y'' @ [quote],
      ''LAM_NSGP=                    1'',
      ''LAM_SCAL=        1.0000000e+00'',
      ''CRPIX1  = '' @ crpix1,
      ''CRPIX2  = '' @ crpix2,
      ''CRVAL1  =        0.0000000e+00'',
      ''CRVAL2  =        0.0000000e+00'',
      ''END'']"








definition hdr1 :: "uchar list" where
  "hdr1 = ''NAXIS1  =                    4'' @ replicate 50 blank"

text \<open>
  A file of one header block, the cards of \<open>hdr_lambert\<close> and blank cards after them,
  followed by \<open>n\<close> bytes of data; and a file cut after its first card.
\<close>

definition file_cards :: "uchar list list" where
  "file_cards =
     cards_lambert ''       4.0000000e+00'' ''      -1.0000000e+00'' @ replicate 23 []"

definition sample_file :: "nat \<Rightarrow> uchar list" where
  "sample_file n = header_of file_cards @ replicate n NUL"

definition cut_file :: "uchar list" where
  "cut_file = header_of [''SIMPLE  =                    T'']"

section \<open>Byte-order correction\<close>


lemma length_fits_bswap2 [simp]: "length (fits_bswap2 i j d) = length d"
  by (simp add: fits_bswap2_def Let_def)

lemma nth_fits_bswap2:
  "i < length d \<Longrightarrow> j < length d \<Longrightarrow> k < length d \<Longrightarrow>
   fits_bswap2 i j d ! k = (if k = j then d ! i else if k = i then d ! j else d ! k)"
  by (simp add: fits_bswap2_def Let_def nth_list_update)

lemma length_bswap_elem2 [simp]: "length (bswap_elem2 i d) = length d"
  by (simp add: bswap_elem2_def)
lemma length_bswap_elem4 [simp]: "length (bswap_elem4 i d) = length d"
  by (simp add: bswap_elem4_def)
lemma length_bswap_elem8 [simp]: "length (bswap_elem8 i d) = length d"
  by (simp add: bswap_elem8_def)

lemma nth_bswap_elem2:
  "2 * n + 2 \<le> length d \<Longrightarrow> k < length d \<Longrightarrow>
   bswap_elem2 n d ! k = (if 2 * n \<le> k \<and> k < 2 * n + 2 then d ! (2 * n + (1 - (k - 2 * n))) else d ! k)"
  by (auto simp add: bswap_elem2_def nth_fits_bswap2)

lemma nth_bswap_elem4:
  "4 * n + 4 \<le> length d \<Longrightarrow> k < length d \<Longrightarrow>
   bswap_elem4 n d ! k = (if 4 * n \<le> k \<and> k < 4 * n + 4 then d ! (4 * n + (3 - (k - 4 * n))) else d ! k)"
  apply (simp add: bswap_elem4_def nth_fits_bswap2)
  apply (intro conjI impI)
  apply (auto intro!: arg_cong[where f="nth d"])
  done

lemma nth_bswap_elem8:
  "8 * n + 8 \<le> length d \<Longrightarrow> k < length d \<Longrightarrow>
   bswap_elem8 n d ! k = (if 8 * n \<le> k \<and> k < 8 * n + 8 then d ! (8 * n + (7 - (k - 8 * n))) else d ! k)"
  apply (simp add: bswap_elem8_def nth_fits_bswap2)
  apply (intro conjI impI)
  apply (auto intro!: arg_cong[where f="nth d"])
  done


lemma fold_swap_inv:
  assumes step: "\<And>n d k. w * n + w \<le> length d \<Longrightarrow> k < length d \<Longrightarrow>
            f n d ! k = (if w * n \<le> k \<and> k < w * n + w then d ! (w * n + (w - 1 - (k - w * n))) else d ! k)"
      and len: "\<And>n d. length (f n d) = length (d::'a list)"
      and w: "0 < (w::nat)"
  shows "w * m \<le> length d \<Longrightarrow>
         length (fold f [0..<m] d) = length d \<and>
         (\<forall>k<length d. fold f [0..<m] d ! k =
            (if k < w * m then d ! (w * (k div w) + (w - 1 - k mod w)) else d ! k))"
proof (induction m)
  case 0
  then show ?case by simp
next
  case (Suc m)
  let ?r = "fold f [0..<m] d"
  from Suc have IH: "length ?r = length d"
    "\<And>k. k < length d \<Longrightarrow> ?r ! k = (if k < w * m then d ! (w * (k div w) + (w - 1 - k mod w)) else d ! k)"
    by auto
  have bound: "w * m + w \<le> length ?r" using Suc.prems IH(1) by simp
  have "fold f [0..<Suc m] d ! k =
      (if k < w * Suc m then d ! (w * (k div w) + (w - 1 - k mod w)) else d ! k)"
    if k: "k < length d" for k
  proof -
    have k': "k < length ?r" using k IH(1) by simp
    have st: "f m ?r ! k = (if w * m \<le> k \<and> k < w * m + w then ?r ! (w * m + (w - 1 - (k - w * m))) else ?r ! k)"
      by (rule step [OF bound k'])
    show ?thesis
    proof (cases "w * m \<le> k \<and> k < w * m + w")
      case True
      then have dv: "k div w = m"
        by (metis add.commute div_nat_eqI mult.commute mult_Suc_right)
      have md: "k mod w = k - w * m"
        using dv by (metis minus_mult_div_eq_mod)
      have "w - 1 - (k - w * m) < w" using w by arith
      then have lt: "w * m + (w - 1 - (k - w * m)) < length d"
        using Suc.prems by simp
      have ge: "\<not> w * m + (w - 1 - (k - w * m)) < w * m" by simp
      show ?thesis
        using True st IH(2) [OF lt] ge dv md by simp
    next
      case False
      then show ?thesis
        using st IH(2) [OF k] by auto
    qed
  qed
  then show ?case using len IH(1) by simp
qed

lemma fold_swap_twice:
  assumes inv: "\<And>d::'a list. w * m \<le> length d \<Longrightarrow>
         length (g d) = length d \<and>
         (\<forall>k<length d. g d ! k =
            (if k < w * m then d ! (w * (k div w) + (w - 1 - k mod w)) else d ! k))"
      and w: "0 < (w::nat)" and d: "w * m \<le> length d"
  shows "g (g d) = d"
proof (rule nth_equalityI)
  have l1: "length (g d) = length d" using inv [OF d] by simp
  then have d1: "w * m \<le> length (g d)" using d by simp
  show l2: "length (g (g d)) = length d" using inv [OF d1] l1 by simp
  fix k assume "k < length (g (g d))"
  then have k: "k < length d" using l2 by simp
  show "g (g d) ! k = d ! k"
  proof (cases "k < w * m")
    case True
    let ?q = "k div w" and ?j = "k mod w"
    let ?k' = "w * ?q + (w - 1 - ?j)"
    have jw: "?j < w" using w by simp
    have qm: "?q < m" using True w by (simp add: less_mult_imp_div_less mult.commute)
    have "w * Suc ?q \<le> w * m" using qm by (intro mult_le_mono2) simp
    then have "w * ?q + w \<le> w * m" by simp
    then have k'm: "?k' < w * m" using jw by simp
    then have k'd: "?k' < length d" using d by simp
    have dv: "?k' div w = ?q" using jw w by (simp add: div_nat_eqI mult.commute)
    have md: "?k' mod w = w - 1 - ?j" using dv by (metis add_diff_cancel_left' minus_mult_div_eq_mod)
    have "g (g d) ! k = g d ! ?k'"
      using inv [OF d1] k l1 True by simp
    also have "\<dots> = d ! (w * ?q + (w - 1 - (w - 1 - ?j)))"
      using inv [OF d] k'd k'm dv md by simp
    also have "w * ?q + (w - 1 - (w - 1 - ?j)) = k" using jw by simp
    finally show ?thesis .
  next
    case False
    then show ?thesis using inv [OF d1] inv [OF d] k l1 by simp
  qed
qed


lemma fold_bswap_elem2:
  "2 * m \<le> length d \<Longrightarrow>
   length (fold bswap_elem2 [0..<m] d) = length d \<and>
   (\<forall>k<length d. fold bswap_elem2 [0..<m] d ! k =
      (if k < 2 * m then d ! (2 * (k div 2) + (2 - 1 - k mod 2)) else d ! k))"
  by (rule fold_swap_inv) (simp_all add: nth_bswap_elem2)

lemma fold_bswap_elem4:
  "4 * m \<le> length d \<Longrightarrow>
   length (fold bswap_elem4 [0..<m] d) = length d \<and>
   (\<forall>k<length d. fold bswap_elem4 [0..<m] d ! k =
      (if k < 4 * m then d ! (4 * (k div 4) + (4 - 1 - k mod 4)) else d ! k))"
  by (rule fold_swap_inv) (simp_all add: nth_bswap_elem4)

lemma fold_bswap_elem8:
  "8 * m \<le> length d \<Longrightarrow>
   length (fold bswap_elem8 [0..<m] d) = length d \<and>
   (\<forall>k<length d. fold bswap_elem8 [0..<m] d ! k =
      (if k < 8 * m then d ! (8 * (k div 8) + (8 - 1 - k mod 8)) else d ! k))"
  by (rule fold_swap_inv) (simp_all add: nth_bswap_elem8)

lemma swap_inv_elements:
  assumes inv: "length r = length d \<and>
         (\<forall>k<length d. r ! k =
            (if k < w * m then d ! (w * (k div w) + (w - 1 - k mod w)) else d ! k))"
      and w: "0 < (w::nat)" and d: "w * m \<le> length d"
  shows "(\<forall>i<m. \<forall>j<w. r ! (w * i + j) = d ! (w * i + (w - 1 - j))) \<and>
         (\<forall>k. w * m \<le> k \<and> k < length d \<longrightarrow> r ! k = d ! k)"
proof (intro conjI allI impI)
  fix i j assume i: "i < m" and j: "j < w"
  have "w * Suc i \<le> w * m" using i by (intro mult_le_mono2) simp
  then have lt: "w * i + j < w * m" using j by simp
  have dv: "(w * i + j) div w = i" using j by (simp add: div_nat_eqI mult.commute)
  have md: "(w * i + j) mod w = j" using j by simp
  show "r ! (w * i + j) = d ! (w * i + (w - 1 - j))"
    using inv lt d dv md by simp
next
  fix k assume "w * m \<le> k \<and> k < length d"
  then show "r ! k = d ! k" using inv by simp
qed

text \<open>
  Claim C10.  \<^verbatim>\<open>fits_byteswap\<close> reverses the bytes of each of the \<open>nData\<close> elements of the
  buffer on its own when \<open>|BITPIX|\<close> is 16, 32 or 64 (element width \<open>w\<close> = 2, 4, 8), leaves
  the bytes after them alone, and changes nothing for any other code; applying it twice
  gives the buffer back.
\<close>

theorem fits_byteswap_reverses:
  "((\<bar>bitpix\<bar> = 16 \<and> w = 2 \<or> \<bar>bitpix\<bar> = 32 \<and> w = 4 \<or> \<bar>bitpix\<bar> = 64 \<and> w = 8) \<and>
      w * nData \<le> length pData \<longrightarrow>
      length (fits_byteswap bitpix nData pData) = length pData \<and>
      (\<forall>i<nData. \<forall>j<w.
         fits_byteswap bitpix nData pData ! (w * i + j) = pData ! (w * i + (w - 1 - j))) \<and>
      (\<forall>k. w * nData \<le> k \<and> k < length pData \<longrightarrow>
         fits_byteswap bitpix nData pData ! k = pData ! k) \<and>
      fits_byteswap bitpix nData (fits_byteswap bitpix nData pData) = pData)
   \<and> (\<bar>bitpix\<bar> \<noteq> 16 \<and> \<bar>bitpix\<bar> \<noteq> 32 \<and> \<bar>bitpix\<bar> \<noteq> 64 \<longrightarrow>
        fits_byteswap bitpix nData pData = pData)"
proof -
  have other: "fits_byteswap bitpix nData pData = pData"
    if "\<bar>bitpix\<bar> \<noteq> 16 \<and> \<bar>bitpix\<bar> \<noteq> 32 \<and> \<bar>bitpix\<bar> \<noteq> 64"
    using that by (simp add: fits_byteswap_def)
  have swapped: "length (fits_byteswap bitpix nData pData) = length pData \<and>
      (\<forall>i<nData. \<forall>j<w.
         fits_byteswap bitpix nData pData ! (w * i + j) = pData ! (w * i + (w - 1 - j))) \<and>
      (\<forall>k. w * nData \<le> k \<and> k < length pData \<longrightarrow>
         fits_byteswap bitpix nData pData ! k = pData ! k) \<and>
      fits_byteswap bitpix nData (fits_byteswap bitpix nData pData) = pData"
    if a: "(\<bar>bitpix\<bar> = 16 \<and> w = 2 \<or> \<bar>bitpix\<bar> = 32 \<and> w = 4 \<or> \<bar>bitpix\<bar> = 64 \<and> w = 8) \<and>
      w * nData \<le> length pData"
  proof -
    from a have w: "0 < w" by auto
    have inv: "length (fits_byteswap bitpix nData d) = length d \<and>
         (\<forall>k<length d. fits_byteswap bitpix nData d ! k =
            (if k < w * nData then d ! (w * (k div w) + (w - 1 - k mod w)) else d ! k))"
      if "w * nData \<le> length d" for d
      using a that fold_bswap_elem2 [of nData d] fold_bswap_elem4 [of nData d]
        fold_bswap_elem8 [of nData d]
      by (auto simp add: fits_byteswap_def)
    from a have d: "w * nData \<le> length pData" by simp
    have el: "(\<forall>i<nData. \<forall>j<w.
         fits_byteswap bitpix nData pData ! (w * i + j) = pData ! (w * i + (w - 1 - j))) \<and>
      (\<forall>k. w * nData \<le> k \<and> k < length pData \<longrightarrow>
         fits_byteswap bitpix nData pData ! k = pData ! k)"
      by (rule swap_inv_elements [OF inv [OF d] w d])
    have tw: "fits_byteswap bitpix nData (fits_byteswap bitpix nData pData) = pData"
      by (rule fold_swap_twice [where g = "fits_byteswap bitpix nData" and w = w and m = nData,
            OF inv w d])
    show ?thesis using inv [OF d] el tw by blast
  qed
  show ?thesis using other swapped by blast
qed

theorem fits_byteswap_reverses_witness:
  "\<bar>- 32 :: int\<bar> = 32 \<and> 4 * 2 \<le> length ''abcdefgh'' \<and>
   fits_byteswap (- 32) 2 ''abcdefgh'' ! (4 * 1 + 0) = ''abcdefgh'' ! (4 * 1 + (4 - 1 - 0)) \<and>
   fits_byteswap (- 32) 2 (fits_byteswap (- 32) 2 ''abcdefgh'') = ''abcdefgh'' \<and>
   fits_byteswap 8 2 ''abcdefgh'' = ''abcdefgh''"
proof -
  have h: "(\<bar>- 32 :: int\<bar> = 16 \<and> (4::nat) = 2 \<or> \<bar>- 32 :: int\<bar> = 32 \<and> (4::nat) = 4 \<or>
            \<bar>- 32 :: int\<bar> = 64 \<and> (4::nat) = 8) \<and> 4 * 2 \<le> length ''abcdefgh''"
    by simp
  have g: "\<bar>8 :: int\<bar> \<noteq> 16 \<and> \<bar>8 :: int\<bar> \<noteq> 32 \<and> \<bar>8 :: int\<bar> \<noteq> 64" by simp
  from fits_byteswap_reverses [of "- 32" 4 2 "''abcdefgh''"] h
  have "(\<forall>i<2. \<forall>j<4.
         fits_byteswap (- 32) 2 ''abcdefgh'' ! (4 * i + j) = ''abcdefgh'' ! (4 * i + (4 - 1 - j)))"
    and t: "fits_byteswap (- 32) 2 (fits_byteswap (- 32) 2 ''abcdefgh'') = ''abcdefgh''"
    by blast+
  then have e: "fits_byteswap (- 32) 2 ''abcdefgh'' ! (4 * 1 + 0) = ''abcdefgh'' ! (4 * 1 + (4 - 1 - 0))"
    by (metis less_numeral_extra(1) one_less_numeral_iff semiring_norm(76) zero_less_numeral)
  from fits_byteswap_reverses [of 8 4 2 "''abcdefgh''"] g
  have "fits_byteswap 8 2 ''abcdefgh'' = ''abcdefgh''" by blast
  with h e t show ?thesis by simp
qed


section \<open>Numeric encodings\<close>


lemma exp_up_numeral:
  "exp_up (numeral k) a = (if a < 2 then 0 else Suc (exp_up (pred_numeral k) (a / 2)))"
  by (simp add: numeral_eq_Suc)

lemma exp_down_numeral:
  "exp_down (numeral k) a = (if 1 \<le> a then 0 else Suc (exp_down (pred_numeral k) (a * 2)))"
  by (simp add: numeral_eq_Suc)

lemma platform_simps:
  "sizeof_long le_platform = 8" "dec_short le_platform = le_short" "dec_long le_platform = le_long"
  "dec_float le_platform = le_float" "dec_double le_platform = le_double"
  "to_float le_platform = float_round" "to_double le_platform = double_round"
  "c_sin le_platform = le_sin" "c_cos le_platform = le_cos" "c_sqrt le_platform = le_sqrt"
  "LITTLE_ENDIAN le_platform = True"
  "sizeof_long ilp32_platform = 4" "dec_short ilp32_platform = le_short"
  "dec_long ilp32_platform = le_long" "to_float ilp32_platform = float_round"
  by (simp_all add: le_platform_def ilp32_platform_def)

lemma float_round_7: "float_round 7 = 7"
proof -
  have "exp_up 127 7 = 2" by (simp add: exp_up_numeral)
  then show ?thesis by (simp add: float_round_def ieee_round_def round_half_even_def Let_def)
qed

lemma float_round_14: "float_round 14 = 14"
proof -
  have "exp_up 127 14 = 3" by (simp add: exp_up_numeral)
  then show ?thesis by (simp add: float_round_def ieee_round_def round_half_even_def Let_def)
qed

lemma float_round_15: "float_round 15 = 15"
proof -
  have "exp_up 127 15 = 3" by (simp add: exp_up_numeral)
  then show ?thesis by (simp add: float_round_def ieee_round_def round_half_even_def Let_def)
qed

lemma float_round_tenth:
  "float_round (3602879701896397 / 36028797018963968) = 13421773 / 134217728"
proof -
  have "exp_down 126 (3602879701896397 / 36028797018963968) = 4"
    by (simp add: exp_down_numeral)
  then show ?thesis by (simp add: float_round_def ieee_round_def round_half_even_def Let_def)
qed

lemma le_double_tenth:
  "le_double [CHR 0x9A, CHR 0x99, CHR 0x99, CHR 0x99, CHR 0x99, CHR 0x99, CHR 0xB9, CHR 0x3F]
     = 3602879701896397 / 36028797018963968"
  by (simp add: le_double_def ieee_value_def le_nat_def Let_def)

lemma le_long_7: "le_long [CHR 0x07, CHR 0x00, CHR 0x00, CHR 0x00] = 7"
  by (simp add: le_long_def twos_complement_def le_nat_def)

text \<open>
  Claim C7 as stated fails on the code: \<open>BITPIX = 64\<close> has element size 8 but
  \<^verbatim>\<open>fits_get_rval_\<close> has no case for it and returns 0 whatever the data, and the unsupported
  code 7 yields size 0 and value 0 where the claim asks for an error.
\<close>

theorem fits_bitpix_claim_counterexample:
  "fits_size_from_bitpix 64 = 8 \<and>
   fits_get_rval le_platform 0 64 2 1 ''AAAAAAAA'' = Some 0 \<and>
   fits_size_from_bitpix 7 = 0 \<and>
   fits_get_rval le_platform 0 7 2 1 ''AAAAAAAA'' = Some 0"
  by (simp add: fits_size_from_bitpix_def fits_get_rval_def)

text \<open>
  Claim C7, amended.  \<^verbatim>\<open>fits_size_from_bitpix_\<close> gives the widths 1, 2, 4, 8, 2, 4, 8 for the
  codes 8, 16, 32, 64, -16, -32, -64 and 0 for every other code.  \<^verbatim>\<open>fits_get_rval_\<close>
  returns a \<^verbatim>\<open>float\<close>: the stored \<^verbatim>\<open>float\<close> for the code -32; the stored \<^verbatim>\<open>double\<close> and the
  stored byte converted to \<^verbatim>\<open>float\<close> for the codes -64 and -8; for the codes 16 and 8, and
  for the code 32 where \<^verbatim>\<open>long\<close> is 4 bytes wide, the stored integer converted to \<^verbatim>\<open>float\<close>,
  multiplied by \<open>BSCALE\<close> and added to \<open>BZERO\<close> in \<^verbatim>\<open>float\<close> arithmetic; and the value 0,
  with no error, for every other code.  What the code 32 yields where \<^verbatim>\<open>long\<close> is wider is
  left open.
\<close>

theorem fits_bitpix_table:
  "fits_size_from_bitpix 8 = 1 \<and> fits_size_from_bitpix 16 = 2 \<and>
   fits_size_from_bitpix 32 = 4 \<and> fits_size_from_bitpix 64 = 8 \<and>
   fits_size_from_bitpix (- 16) = 2 \<and> fits_size_from_bitpix (- 32) = 4 \<and>
   fits_size_from_bitpix (- 64) = 8 \<and>
   (b \<notin> {8, 16, 32, 64, - 16, - 32, - 64} \<longrightarrow> fits_size_from_bitpix b = 0) \<and>
   fits_get_rval P i (- 32) bscale bzero d = map_option (dec_float P) (elem 4 d i) \<and>
   fits_get_rval P i (- 64) bscale bzero d =
     map_option (\<lambda>e. to_float P (dec_double P e)) (elem 8 d i) \<and>
   fits_get_rval P i (- 8) bscale bzero d =
     map_option (\<lambda>e. to_float P (real (byte_at e))) (elem 1 d i) \<and>
   fits_get_rval P i 16 bscale bzero d =
     map_option
       (\<lambda>e. to_float P (to_float P (to_float P (real_of_int (dec_short P e)) * bscale) + bzero))
       (elem 2 d i) \<and>
   (sizeof_long P = 4 \<longrightarrow>
      fits_get_rval P i 32 bscale bzero d =
        map_option
          (\<lambda>e. to_float P (to_float P (to_float P (real_of_int (dec_long P e)) * bscale) + bzero))
          (elem 4 d i)) \<and>
   fits_get_rval P i 8 bscale bzero d =
     map_option
       (\<lambda>e. to_float P (to_float P (to_float P (real (byte_at e)) * bscale) + bzero))
       (elem 1 d i) \<and>
   (b \<notin> {- 32, 16, 32, - 64, 8, - 8} \<longrightarrow> fits_get_rval P i b bscale bzero d = Some 0)"
  by (simp add: fits_size_from_bitpix_def fits_get_rval_def scale_offset_def)

theorem fits_bitpix_table_witness:
  "sizeof_long ilp32_platform = 4 \<and>
   fits_get_rval ilp32_platform 1 32 2 1
     [CHR 0x05, CHR 0x00, CHR 0x00, CHR 0x00, CHR 0x07, CHR 0x00, CHR 0x00, CHR 0x00] = Some 15 \<and>
   fits_get_rval le_platform 0 (- 64) 1 0
     [CHR 0x9A, CHR 0x99, CHR 0x99, CHR 0x99, CHR 0x99, CHR 0x99, CHR 0xB9, CHR 0x3F]
     = Some (13421773 / 134217728) \<and>
   (- 16 :: int) \<notin> {- 32, 16, 32, - 64, 8, - 8} \<and>
   fits_get_rval le_platform 0 (- 16) 2 1 ''AA'' = Some 0 \<and>
   (- 8 :: int) \<notin> {8, 16, 32, 64, - 16, - 32, - 64} \<and>
   fits_size_from_bitpix (- 8) = 0"
proof -
  let ?d = "[CHR 0x05, CHR 0x00, CHR 0x00, CHR 0x00, CHR 0x07, CHR 0x00, CHR 0x00, CHR 0x00]"
  let ?t = "[CHR 0x9A, CHR 0x99, CHR 0x99, CHR 0x99, CHR 0x99, CHR 0x99, CHR 0xB9, CHR 0x3F]"
  have h0: "sizeof_long ilp32_platform = 4" by (simp add: platform_simps)
  have h1: "(- 16 :: int) \<notin> {- 32, 16, 32, - 64, 8, - 8}" by simp
  have h2: "(- 8 :: int) \<notin> {8, 16, 32, 64, - 16, - 32, - 64}" by simp
  from fits_bitpix_table [of "- 8" ilp32_platform 1 2 1 ?d] h0
  have "fits_get_rval ilp32_platform 1 32 2 1 ?d =
        map_option
          (\<lambda>e. to_float ilp32_platform (to_float ilp32_platform
                  (to_float ilp32_platform (real_of_int (dec_long ilp32_platform e)) * 2) + 1))
          (elem 4 ?d 1)"
    by blast
  moreover have "elem 4 ?d 1 = Some [CHR 0x07, CHR 0x00, CHR 0x00, CHR 0x00]"
    by (simp add: elem_def)
  ultimately have a: "fits_get_rval ilp32_platform 1 32 2 1 ?d = Some 15"
    by (simp add: platform_simps le_long_7 float_round_7 float_round_14 float_round_15)
  from fits_bitpix_table [of "- 8" le_platform 0 1 0 ?t]
  have "fits_get_rval le_platform 0 (- 64) 1 0 ?t =
        map_option (\<lambda>e. to_float le_platform (dec_double le_platform e)) (elem 8 ?t 0)"
    by blast
  moreover have "elem 8 ?t 0 = Some ?t" by (simp add: elem_def)
  ultimately have b: "fits_get_rval le_platform 0 (- 64) 1 0 ?t = Some (13421773 / 134217728)"
    by (simp add: platform_simps le_double_tenth float_round_tenth)
  from fits_bitpix_table [of "- 8" le_platform 0 2 1 "''AA''"] h2
  have c: "fits_size_from_bitpix (- 8) = 0" by blast
  from fits_bitpix_table [of "- 16" le_platform 0 2 1 "''AA''"] h1
  have d: "fits_get_rval le_platform 0 (- 16) 2 1 ''AA'' = Some 0" by blast
  from h0 h1 h2 a b c d show ?thesis by blast
qed


section \<open>Card store: lookup and string values\<close>



lemma card_scan_spec:
  "i \<le> nHead \<Longrightarrow>
   i \<le> card_scan L nHead H i \<and> card_scan L nHead H i \<le> nHead \<and>
   (card_scan L nHead H i < nHead \<longrightarrow> strncmp L (drop (card_scan L nHead H i * 80) H) 8 = 0) \<and>
   (\<forall>j. i \<le> j \<and> j < card_scan L nHead H i \<longrightarrow> strncmp L (drop (j * 80) H) 8 \<noteq> 0)"
proof (induction L nHead H i rule: card_scan.induct)
  case (1 pLabel nHead pHead iCard)
  show ?case
  proof (cases "iCard < nHead \<and> strncmp pLabel (drop (iCard * 80) pHead) 8 \<noteq> 0")
    case True
    then have eq: "card_scan pLabel nHead pHead iCard = card_scan pLabel nHead pHead (iCard + 1)"
      by (simp add: card_scan.simps [of pLabel nHead pHead iCard])
    from True have "iCard + 1 \<le> nHead" by simp
    from "1.IH" [OF True this] True show ?thesis
      unfolding eq
      by (metis Suc_eq_plus1 Suc_leD le_antisym not_less_eq_eq)
  next
    case False
    then have eq: "card_scan pLabel nHead pHead iCard = iCard"
      by (auto simp add: card_scan.simps [of pLabel nHead pHead iCard])
    from False "1.prems" show ?thesis unfolding eq by auto
  qed
qed


lemma byte_at_Cons [simp]: "byte_at (c # cs) = of_char c"
  by (simp add: byte_at_def)

lemma of_char_eq_0_iff: "(of_char c :: nat) = 0 \<longleftrightarrow> c = NUL"
proof -
  have "(of_char c :: nat) = of_char NUL \<longleftrightarrow> c = NUL" by (rule of_char_eq_iff)
  then show ?thesis by (simp add: NUL_def)
qed

lemma strncmp_bytes:
  "n \<le> length s \<Longrightarrow> n \<le> length t \<Longrightarrow> NUL \<notin> set (take n s) \<Longrightarrow>
   (strncmp s t n = 0 \<longleftrightarrow> take n s = take n t)"
proof (induction n arbitrary: s t)
  case 0
  then show ?case by simp
next
  case (Suc n)
  then obtain a s' b t' where s: "s = a # s'" and t: "t = b # t'"
    by (cases s; cases t) auto
  from Suc.prems s have a: "a \<noteq> NUL" by auto
  have IH: "strncmp s' t' n = 0 \<longleftrightarrow> take n s' = take n t'"
    using Suc.prems s t by (intro Suc.IH) auto
  show ?case using a IH by (auto simp add: s t of_char_eq_0_iff)
qed

text \<open>
  Claim C5, amended.  \<^verbatim>\<open>fits_find_card_\<close> returns the position of the first card that
  \<^verbatim>\<open>strncmp\<close> over 8 bytes finds equal to the label, and \<open>nHead\<close> when there is none; for a
  label of 8 bytes other than NUL that is the first card whose first 8 bytes are exactly
  the label's, upper and lower case being different.
\<close>

theorem fits_find_card_first_match:
  "fits_find_card pLabel nHead pHead \<le> nHead \<and>
   (fits_find_card pLabel nHead pHead < nHead \<longrightarrow>
      strncmp pLabel (drop (fits_find_card pLabel nHead pHead * 80) pHead) 8 = 0) \<and>
   (\<forall>j < fits_find_card pLabel nHead pHead. strncmp pLabel (drop (j * 80) pHead) 8 \<noteq> 0) \<and>
   (8 \<le> length pLabel \<and> NUL \<notin> set (take 8 pLabel) \<and> nHead * 80 \<le> length pHead \<longrightarrow>
      (fits_find_card pLabel nHead pHead < nHead \<longrightarrow>
         take 8 (drop (fits_find_card pLabel nHead pHead * 80) pHead) = take 8 pLabel) \<and>
      (\<forall>j < fits_find_card pLabel nHead pHead.
         take 8 (drop (j * 80) pHead) \<noteq> take 8 pLabel))"
proof -
  let ?r = "fits_find_card pLabel nHead pHead"
  have r: "?r = card_scan pLabel nHead pHead 0"
    by (simp add: fits_find_card_def card_scan.simps [of pLabel 0 pHead 0])
  note sp = card_scan_spec [of 0 nHead pLabel pHead, simplified, folded r]
  have A: "?r \<le> nHead"
    "?r < nHead \<longrightarrow> strncmp pLabel (drop (?r * 80) pHead) 8 = 0"
    "\<forall>j < ?r. strncmp pLabel (drop (j * 80) pHead) 8 \<noteq> 0"
    using sp by auto
  have B: "(?r < nHead \<longrightarrow> take 8 (drop (?r * 80) pHead) = take 8 pLabel) \<and>
      (\<forall>j < ?r. take 8 (drop (j * 80) pHead) \<noteq> take 8 pLabel)"
    if h: "8 \<le> length pLabel \<and> NUL \<notin> set (take 8 pLabel) \<and> nHead * 80 \<le> length pHead"
  proof -
    have eq: "strncmp pLabel (drop (j * 80) pHead) 8 = 0 \<longleftrightarrow> take 8 pLabel = take 8 (drop (j * 80) pHead)"
      if "j < nHead" for j
    proof -
      have "(j + 1) * 80 \<le> nHead * 80" using that by simp
      moreover from h have "nHead * 80 \<le> length pHead" by simp
      ultimately have "8 \<le> length pHead - j * 80" by simp
      then have "8 \<le> length (drop (j * 80) pHead)" by simp
      then show ?thesis using h by (intro strncmp_bytes) auto
    qed
    show ?thesis using A eq by (metis less_le_trans)
  qed
  show ?thesis using A B by blast
qed


lemma c_string_Nil [simp]: "c_string [] = []"
  by (simp add: c_string_def)








text \<open>
  Claim C5 as stated fails on the code: the label \<^verbatim>\<open>naxis1\<close> is not found in a header whose
  only card is labelled \<^verbatim>\<open>NAXIS1\<close>, although the two agree when case is ignored.
\<close>

theorem fits_find_card_case_counterexample:
  "fits_find_card ''naxis1  '' 1 (''NAXIS1  =                    4'' @ replicate 50 blank) = 1 \<and>
   map toupper ''naxis1  '' = take 8 (''NAXIS1  =                    4'' @ replicate 50 blank)"
  by code_simp

theorem fits_find_card_first_match_witness:
  "fits_find_card ''NAXIS2  '' 2 (hdr1 @ ''NAXIS2  =                    7'' @ replicate 50 blank) = 1"
proof -
  let ?h = "hdr1 @ ''NAXIS2  =                    7'' @ replicate 50 blank"
  let ?r = "fits_find_card ''NAXIS2  '' 2 ?h"
  have h: "8 \<le> length ''NAXIS2  '' \<and> NUL \<notin> set (take 8 ''NAXIS2  '') \<and> 2 * 80 \<le> length ?h"
    by (simp add: NUL_def hdr1_def)
  note t = fits_find_card_first_match [of "''NAXIS2  ''" 2 ?h]
  have a: "\<forall>j < ?r. take 8 (drop (j * 80) ?h) \<noteq> take 8 ''NAXIS2  ''" using t h by blast
  have b: "?r < 2 \<longrightarrow> take 8 (drop (?r * 80) ?h) = take 8 ''NAXIS2  ''" using t h by blast
  have c: "?r \<le> 2" using t by blast
  have "take 8 (drop (1 * 80) ?h) = take 8 ''NAXIS2  ''" by (simp add: hdr1_def)
  then have "\<not> 1 < ?r" using a by blast
  moreover have n0: "take 8 (drop (0 * 80) ?h) \<noteq> take 8 ''NAXIS2  ''" by (simp add: hdr1_def)
  have "?r \<noteq> 0"
  proof
    assume z: "?r = 0"
    then have "?r < 2" by simp
    with b have "take 8 (drop (?r * 80) ?h) = take 8 ''NAXIS2  ''" by blast
    then show False using n0 unfolding z by simp
  qed
  ultimately show ?thesis by simp
qed





section \<open>Headers as lists of cards\<close>


lemma length_card: "length c \<le> 80 \<Longrightarrow> length (card c) = 80"
  by (simp add: card_def)


lemma header_of_Cons: "header_of (c # cs) = card c @ header_of cs"
  by (simp add: header_of_def)



lemma first_card_le: "first_card L cs \<le> length cs"
  by (induction cs) auto












section \<open>Rounding on the sample platform\<close>


lemma round_half_even_of_int [simp]: "round_half_even (of_int z) = z"
  by (simp add: round_half_even_def)

lemma exp_up_le: "a < 2 ^ Suc k \<Longrightarrow> exp_up fuel a \<le> k"
proof (induction fuel arbitrary: a k)
  case 0
  then show ?case by simp
next
  case (Suc fuel)
  show ?case
  proof (cases "a < 2")
    case True
    then show ?thesis by simp
  next
    case False
    then obtain k' where k: "k = Suc k'"
      using Suc.prems by (cases k) auto
    have "a / 2 < 2 ^ Suc k'" using Suc.prems k by simp
    then have "exp_up fuel (a / 2) \<le> k'" by (rule Suc.IH)
    then show ?thesis using False k by simp
  qed
qed

lemma ieee_round_int:
  assumes "\<bar>n\<bar> < 2 ^ Suc mbits"
  shows "ieee_round mbits emin emax (of_int n) = of_int n"
proof (cases "n = 0")
  case True
  have "round_half_even 0 = 0" using round_half_even_of_int [of 0] by simp
  then show ?thesis using True by (simp add: ieee_round_def Let_def)
next
  case False
  let ?a = "\<bar>of_int n :: real\<bar>"
  have a1: "1 \<le> ?a" using False by (simp flip: of_int_abs)
  have "?a < 2 ^ Suc mbits"
  proof -
    have "(of_int \<bar>n\<bar> :: real) < of_int (2 ^ Suc mbits)" using assms by (simp only: of_int_less_iff)
    then show ?thesis by simp
  qed
  then have e: "exp_up emax ?a \<le> mbits" by (rule exp_up_le)
  define ex where "ex = exp_up emax ?a"
  define q :: real where
    "q = (if int mbits \<le> int ex then 2 ^ nat (int ex - int mbits)
          else 1 / 2 ^ nat (int mbits - int ex))"
  have exle: "ex \<le> mbits" using e by (simp add: ex_def)
  have q: "q = 1 / 2 ^ (mbits - ex)"
  proof (cases "ex = mbits")
    case True
    then show ?thesis by (simp add: q_def)
  next
    case False
    then have "ex < mbits" using exle by simp
    moreover have "nat (int mbits - int ex) = mbits - ex" by simp
    ultimately show ?thesis by (simp add: q_def)
  qed
  have "?a / q = of_int (\<bar>n\<bar> * 2 ^ (mbits - ex))" by (simp add: q)
  then have m: "round_half_even (?a / q) = \<bar>n\<bar> * 2 ^ (mbits - ex)"
    by (simp only: round_half_even_of_int)
  have r: "real_of_int (round_half_even (?a / q)) * q = ?a"
    unfolding m by (simp add: q)
  have "ieee_round mbits emin emax (of_int n) =
        (if (of_int n :: real) < 0 then - (real_of_int (round_half_even (?a / q)) * q)
         else real_of_int (round_half_even (?a / q)) * q)"
    using a1 by (simp add: ieee_round_def Let_def q_def ex_def)
  then show ?thesis unfolding r by simp
qed

lemma float_round_int: "\<bar>n\<bar> < 16777216 \<Longrightarrow> float_round (of_int n) = of_int n"
  unfolding float_round_def by (rule ieee_round_int) simp

lemma double_round_int: "\<bar>n\<bar> < 9007199254740992 \<Longrightarrow> double_round (of_int n) = of_int n"
  unfolding double_round_def by (rule ieee_round_int) simp

lemma float_round_numeral [simp]:
  "float_round 0 = 0" "float_round 1 = 1" "float_round (- 1) = - 1"
  "(numeral k :: int) < 16777216 \<Longrightarrow> float_round (numeral k) = numeral k"
  "(numeral k :: int) < 16777216 \<Longrightarrow> float_round (- numeral k) = - numeral k"
  using float_round_int [of 0] float_round_int [of 1] float_round_int [of "- 1"]
    float_round_int [of "numeral k"] float_round_int [of "- numeral k"]
  by simp_all

lemma double_round_numeral [simp]:
  "double_round 0 = 0" "double_round 1 = 1" "double_round (- 1) = - 1"
  "(numeral k :: int) < 9007199254740992 \<Longrightarrow> double_round (numeral k) = numeral k"
  "(numeral k :: int) < 9007199254740992 \<Longrightarrow> double_round (- numeral k) = - numeral k"
  using double_round_int [of 0] double_round_int [of 1] double_round_int [of "- 1"]
    double_round_int [of "numeral k"] double_round_int [of "- numeral k"]
  by simp_all

lemma float_round_halves [simp]:
  "float_round (1 / 2) = 1 / 2" "float_round (- (1 / 2)) = - (1 / 2)"
  "float_round (5 / 2) = 5 / 2" "float_round (3 / 2) = 3 / 2"
proof -
  have d: "exp_down 126 (1 / 2) = 1" by (simp add: exp_down_numeral)
  have u: "exp_up 127 (5 / 2) = 1" "exp_up 127 (3 / 2) = 0" by (simp_all add: exp_up_numeral)
  show "float_round (1 / 2) = 1 / 2" "float_round (- (1 / 2)) = - (1 / 2)"
    using d by (simp_all add: float_round_def ieee_round_def round_half_even_def Let_def)
  show "float_round (5 / 2) = 5 / 2" "float_round (3 / 2) = 3 / 2"
    using u by (simp_all add: float_round_def ieee_round_def round_half_even_def Let_def)
qed

lemma double_round_halves [simp]:
  "double_round (5 / 2) = 5 / 2" "double_round (- (7 / 2)) = - (7 / 2)"
  "double_round (3 / 2) = 3 / 2"
proof -
  have u: "exp_up 1023 (5 / 2) = 1" "exp_up 1023 (7 / 2) = 1" "exp_up 1023 (3 / 2) = 0"
    by (simp_all add: exp_up_numeral)
  show "double_round (5 / 2) = 5 / 2" "double_round (- (7 / 2)) = - (7 / 2)"
    "double_round (3 / 2) = 3 / 2"
    using u by (simp_all add: double_round_def ieee_round_def round_half_even_def Let_def)
qed


section \<open>The sample headers\<close>





lemma le_libm [simp]: "le_sin 0 = 0" "le_cos 0 = 1" "le_sqrt 1 = 1"
  by (simp_all add: le_sin_def le_cos_def le_sqrt_def)

lemma float_round_big [simp]:
  "float_round 16777216 = 16777216" "float_round 16777217 = 16777216"
  "float_round 33554432 = 33554432" "float_round 33554431 = 33554432"
proof -
  have u: "exp_up 127 16777216 = 24" "exp_up 127 16777217 = 24" "exp_up 127 33554432 = 25"
    "exp_up 127 33554431 = 24"
    by (simp_all add: exp_up_numeral)
  show "float_round 16777216 = 16777216" "float_round 16777217 = 16777216"
    "float_round 33554432 = 33554432" "float_round 33554431 = 33554432"
    using u by (simp_all add: float_round_def ieee_round_def round_half_even_def Let_def)
qed

lemma double_round_big [simp]:
  "double_round (33 / 2) = 33 / 2" "double_round (9 / 2) = 9 / 2" "double_round (- (3 / 2)) = - (3 / 2)"
proof -
  have u: "exp_up 1023 (33 / 2) = 4" "exp_up 1023 (9 / 2) = 2" "exp_up 1023 (3 / 2) = 0"
    by (simp_all add: exp_up_numeral)
  show "double_round (33 / 2) = 33 / 2" "double_round (9 / 2) = 9 / 2"
    "double_round (- (3 / 2)) = - (3 / 2)"
    using u by (simp_all add: double_round_def ieee_round_def round_half_even_def Let_def)
qed












section \<open>Projection transform: nearest pixel and the polar convention\<close>









section \<open>Projection transform: the pole under the zenithal convention\<close>


lemma float_round_quarter [simp]:
  "float_round (1 / 4) = 1 / 4" "float_round (- (1 / 4)) = - (1 / 4)"
proof -
  have d: "exp_down 126 (1 / 4) = 2" by (simp add: exp_down_numeral)
  show "float_round (1 / 4) = 1 / 4" "float_round (- (1 / 4)) = - (1 / 4)"
    using d by (simp_all add: float_round_def ieee_round_def round_half_even_def Let_def)
qed
















section \<open>Reading a sub-image\<close>

lemma length_header_of:
  "\<forall>c\<in>set cs. length c \<le> 80 \<Longrightarrow> length (header_of cs) = 80 * length cs"
  by (induction cs) (simp_all add: header_of_def length_card)

lemma fgetc_n_in:
  "pos + n \<le> length file \<Longrightarrow> fgetc_n n file pos = (take n (drop pos file), pos + n)"
proof (induction n arbitrary: pos)
  case 0
  then show ?case by simp
next
  case (Suc n)
  have "pos < length file" using Suc.prems by simp
  then have "drop pos file = file ! pos # drop (Suc pos) file"
    by (simp add: Cons_nth_drop_Suc)
  with Suc show ?case by (simp add: fgetc_def)
qed

lemma fgetc_n_eof:
  "length file \<le> pos \<Longrightarrow> fgetc_n n file pos = (replicate n (CHR 0xFF), pos)"
  by (induction n) (simp_all add: fgetc_def)

lemma next_card_in:
  "pos + 80 \<le> length file \<Longrightarrow>
   fits_get_next_card file pos = (strncmp card_end (take 80 (drop pos file)) 8, pos + 80)"
  by (simp add: fits_get_next_card_def fgetc_n_in)

lemma skip_cards_header:
  assumes "\<forall>c\<in>set cs. length c \<le> 80" "first_card card_end cs < length cs"
  shows "skip_cards (pre @ header_of cs @ data) (length pre) =
         Some (length pre + 80 * (first_card card_end cs + 1))"
  using assms
proof (induction cs arbitrary: pre)
  case Nil
  then show ?case by simp
next
  case (Cons c cs)
  have len: "length (card c) = 80" using Cons.prems by (simp add: length_card)
  let ?f = "pre @ header_of (c # cs) @ data"
  have nc: "fits_get_next_card ?f (length pre) = (strncmp card_end (card c) 8, length pre + 80)"
    using len by (simp add: next_card_in header_of_Cons)
  show ?case
  proof (cases "strncmp card_end (card c) 8 = 0")
    case True
    then show ?thesis by (subst skip_cards.simps) (simp add: nc)
  next
    case False
    have step: "skip_cards ?f (length pre) = skip_cards ?f (length pre + 80)"
      by (subst skip_cards.simps) (simp add: nc False)
    have "skip_cards ((pre @ card c) @ header_of cs @ data) (length (pre @ card c)) =
          Some (length (pre @ card c) + 80 * (first_card card_end cs + 1))"
      using Cons.IH [of "pre @ card c"] Cons.prems False by simp
    then have "skip_cards ?f (length pre + 80) =
          Some (length pre + 80 + 80 * (first_card card_end cs + 1))"
      using len by (simp add: header_of_Cons)
    then show ?thesis using step False by simp
  qed
qed

lemma fold_next_card:
  "p + 80 * length xs \<le> length file \<Longrightarrow>
   fold (\<lambda>iCard p. snd (fits_get_next_card file p)) xs p = p + 80 * length xs"
  by (induction xs arbitrary: p) (simp_all add: next_card_in)

lemma block_arith:
  fixes k n :: nat
  assumes "n = 36 * (k div 36 + 1)"
  shows "(80 * (k + 1) mod 2880) div 80 = (k + 1) mod 36"
    and "(k + 1) mod 36 = 0 \<Longrightarrow> k + 1 = n"
    and "(k + 1) mod 36 \<noteq> 0 \<Longrightarrow> 80 * (k + 1) + 80 * (36 - (k + 1) mod 36) = 80 * n"
proof -
  have "80 * (k + 1) mod 2880 = 80 * ((k + 1) mod 36)"
    using mult_mod_right [of 80 "k + 1" 36] by simp
  then show "(80 * (k + 1) mod 2880) div 80 = (k + 1) mod 36" by simp
  define q r where "q = k div 36" and "r = k mod 36"
  have k: "k = 36 * q + r" and r: "r < 36" by (simp_all add: q_def r_def)
  have nq: "n = 36 * (q + 1)" using assms by (simp add: q_def)
  have m: "(k + 1) mod 36 = (r + 1) mod 36"
    unfolding k by (simp add: add.assoc)
  show "(k + 1) mod 36 = 0 \<Longrightarrow> k + 1 = n"
  proof -
    assume "(k + 1) mod 36 = 0"
    then have "r = 35" using m r by (cases "r = 35") simp_all
    then show ?thesis using k nq by simp
  qed
  show "(k + 1) mod 36 \<noteq> 0 \<Longrightarrow> 80 * (k + 1) + 80 * (36 - (k + 1) mod 36) = 80 * n"
  proof -
    assume "(k + 1) mod 36 \<noteq> 0"
    then have "r < 35" using m r by (cases "r = 35") simp_all
    then have "(k + 1) mod 36 = r + 1" using m by simp
    then show ?thesis using k nq \<open>r < 35\<close> by simp
  qed
qed

lemma fits_skip_header_block:
  assumes ok: "\<forall>c\<in>set cs. length c \<le> 80"
    and k: "first_card card_end cs < length cs"
    and n: "length cs = 36 * (first_card card_end cs div 36 + 1)"
  shows "fits_skip_header (header_of cs @ data) 0 = Some (80 * length cs)"
proof -
  let ?k = "first_card card_end cs"
  let ?f = "header_of cs @ data"
  have s: "skip_cards ?f 0 = Some (80 * (?k + 1))"
    using skip_cards_header [OF ok k, of "[]" data] by simp
  have len: "80 * length cs \<le> length ?f" using ok by (simp add: length_header_of)
  show ?thesis
  proof (cases "(?k + 1) mod 36 = 0")
    case True
    then show ?thesis
      using block_arith(1) [OF n] block_arith(2) [OF n True]
      by (simp add: fits_skip_header_def s del: mult_Suc_right)
  next
    case False
    have j: "(?k + 1) mod 36 < 36" by simp
    have "80 * (?k + 1) + 80 * length [(?k + 1) mod 36..<36] \<le> length ?f"
      using block_arith(3) [OF n False] len by simp
    then have "fold (\<lambda>iCard p. snd (fits_get_next_card ?f p)) [(?k + 1) mod 36..<36] (80 * (?k + 1))
          = 80 * length cs"
      using fold_next_card [of "80 * (?k + 1)" "[(?k + 1) mod 36..<36]" ?f]
        block_arith(3) [OF n False] by simp
    then show ?thesis
      using block_arith(1) [OF n] False
      by (simp add: fits_skip_header_def s del: mult_Suc_right)
  qed
qed

lemma window_count_Suc:
  "window_count pStart pEnd (Suc m) = window_count pStart pEnd m * (pEnd ! m - pStart ! m + 1)"
  by (simp add: window_count_def)

lemma window_count_pos:
  "\<forall>k<m. pStart ! k \<le> pEnd ! k \<Longrightarrow> 0 < window_count pStart pEnd m"
  by (induction m) (simp_all add: window_count_def)

lemma fold_window_count:
  "fold (\<lambda>iAxis n. n * (pEnd ! iAxis - pStart ! iAxis + 1)) [0..<m] a =
   a * window_count pStart pEnd m"
  by (induction m) (simp_all add: window_count_def)

lemma fold_axes_count:
  "fold (\<lambda>ii nskip. nskip * pNaxis ! ii) [0..<m] a = a * axes_count pNaxis m"
  by (induction m) (simp_all add: axes_count_def)

lemma skip_points_eq:
  "skip_points sz n0 (Suc m) pNaxis (pos, v, d) =
     (fseek pos (int pos + sz * (n0 * axes_count pNaxis m)), v, d)"
  by (simp add: skip_points_def fold_axes_count)

lemma length_memmove:
  "off + length src \<le> length dst \<Longrightarrow> length (memmove dst off src) = length dst"
  by (simp add: memmove_def)

lemma read_run_bound:
  assumes "0 \<le> nread" "0 \<le> v" "v + nread \<le> cap" "nat cap * nat sz \<le> length d"
  shows "\<exists>pos' v' d'. read_run file sz nread (pos, v, d) = Some (pos', v', d') \<and>
           v \<le> v' \<and> v' \<le> v + nread \<and> length d' = length d"
proof -
  obtain k bytes pos' where fr: "fread file pos (nat sz) (nat nread) = (k, bytes, pos')"
    by (cases "fread file pos (nat sz) (nat nread)") auto
  have kb: "k \<le> nat nread \<and> length bytes = k * nat sz"
  proof (cases "nat sz = 0 \<or> nat nread = 0")
    case True
    then show ?thesis using fr by (auto simp add: fread_def)
  next
    case False
    let ?avail = "length file - pos"
    have k: "k = min (nat nread) (?avail div nat sz)"
      and b: "bytes = take (k * nat sz) (drop pos file)"
      using fr False by (auto simp add: fread_def Let_def)
    have "k * nat sz \<le> (?avail div nat sz) * nat sz" using k by simp
    also have "\<dots> \<le> ?avail" by simp
    finally have "k * nat sz \<le> ?avail" .
    then show ?thesis using k b by simp
  qed
  have "nat v + k \<le> nat cap" using kb assms by linarith
  then have "(nat v + k) * nat sz \<le> nat cap * nat sz" by (rule mult_le_mono1)
  then have fit: "nat v * nat sz + length bytes \<le> length d"
    using kb assms(4) by (simp add: add_mult_distrib)
  have "read_run file sz nread (pos, v, d) =
        Some (pos', v + int k, memmove d (nat v * nat sz) bytes)"
    using assms(1,2) fit by (simp add: read_run_def fr)
  moreover have "length (memmove d (nat v * nat sz) bytes) = length d"
    using fit by (rule length_memmove)
  moreover have "v + int k \<le> v + nread" using kb assms(1) by linarith
  ultimately show ?thesis by simp
qed

lemma repeat_opt_bound:
  assumes body: "\<And>pos v d. 0 \<le> v \<Longrightarrow> v + w \<le> cap \<Longrightarrow> length d = L \<Longrightarrow>
            \<exists>pos' v' d'. body (pos, v, d) = Some (pos', v', d') \<and>
              v \<le> v' \<and> v' \<le> v + w \<and> length d' = L"
    and w: "0 \<le> w"
  shows "0 \<le> v \<Longrightarrow> v + int n * w \<le> cap \<Longrightarrow> length d = L \<Longrightarrow>
         \<exists>pos' v' d'. repeat_opt n body (pos, v, d) = Some (pos', v', d') \<and>
           v \<le> v' \<and> v' \<le> v + int n * w \<and> length d' = L"
proof (induction n arbitrary: pos v d)
  case 0
  then show ?case by simp
next
  case (Suc n)
  have nw: "0 \<le> int n * w" using w by simp
  have e: "int (Suc n) * w = w + int n * w" by (simp add: algebra_simps)
  have "v + w \<le> cap" using Suc.prems(2) nw e by linarith
  from body [OF Suc.prems(1) this Suc.prems(3), of pos]
  obtain p1 v1 d1 where b: "body (pos, v, d) = Some (p1, v1, d1)"
    and v1: "v \<le> v1" "v1 \<le> v + w" and d1: "length d1 = L" by blast
  have "0 \<le> v1" using v1 Suc.prems(1) by linarith
  moreover have "v1 + int n * w \<le> cap" using v1 Suc.prems(2) e by linarith
  ultimately obtain p2 v2 d2 where r: "repeat_opt n body (p1, v1, d1) = Some (p2, v2, d2)"
    and v2: "v1 \<le> v2" "v2 \<le> v1 + int n * w" and d2: "length d2 = L"
    using Suc.IH [of v1 d1 p1] d1 by blast
  have "repeat_opt (Suc n) body (pos, v, d) = Some (p2, v2, d2)" by (simp add: b r)
  moreover have "v \<le> v2" using v1 v2 by linarith
  moreover have "v2 \<le> v + int (Suc n) * w" using v1 v2 e by linarith
  ultimately show ?case using d2 by blast
qed

lemma fits_read_subimg1_bound:
  assumes "\<forall>k<m. pStart ! k \<le> pEnd ! k" "0 < m"
  shows "0 \<le> v \<Longrightarrow> v + window_count pStart pEnd m \<le> cap \<Longrightarrow>
         nat cap * nat (fits_size_from_bitpix bitpix) \<le> length d \<Longrightarrow>
         \<exists>pos' v' d'. fits_read_subimg1 m pNaxis pStart pEnd file bitpix (pos, v, d) =
             Some (pos', v', d') \<and>
           v \<le> v' \<and> v' \<le> v + window_count pStart pEnd m \<and> length d' = length d"
  using assms
proof (induction m arbitrary: pos v d)
  case 0
  then show ?case by simp
next
  case (Suc m)
  let ?sz = "fits_size_from_bitpix bitpix"
  let ?cnt = "pEnd ! m - pStart ! m + 1"
  let ?W = "window_count pStart pEnd"
  have cnt: "0 \<le> ?cnt" using Suc.prems(4) by simp
  obtain p1 where s1: "skip_points ?sz (pStart ! m) (Suc m) pNaxis (pos, v, d) = (p1, v, d)"
    by (simp add: skip_points_eq)
  have mid: "\<exists>p2 v2 d2.
      (if Suc m > 1
       then repeat_opt (nat ?cnt) (fits_read_subimg1 m pNaxis pStart pEnd file bitpix) (p1, v, d)
       else read_run file ?sz (pEnd ! 0 - pStart ! 0 + 1) (p1, v, d)) = Some (p2, v2, d2) \<and>
      v \<le> v2 \<and> v2 \<le> v + ?W (Suc m) \<and> length d2 = length d"
  proof (cases "m = 0")
    case True
    have "?W (Suc m) = pEnd ! 0 - pStart ! 0 + 1" using True by (simp add: window_count_def)
    then show ?thesis
      using read_run_bound [of "pEnd ! 0 - pStart ! 0 + 1" v cap ?sz d "file" p1]
        Suc.prems(1,2,3) cnt True by simp
  next
    case False
    then have m: "0 < m" by simp
    have pre: "\<forall>k<m. pStart ! k \<le> pEnd ! k" using Suc.prems(4) by simp
    have W: "0 \<le> ?W m" using window_count_pos [OF pre] by simp
    have body: "\<exists>pos' v' d''. fits_read_subimg1 m pNaxis pStart pEnd file bitpix (pos, v, d') =
                Some (pos', v', d'') \<and> v \<le> v' \<and> v' \<le> v + ?W m \<and> length d'' = length d"
      if a: "0 \<le> v" "v + ?W m \<le> cap" "length d' = length d" for pos v d'
      using Suc.IH [of v d' pos] a Suc.prems(3) pre m by simp
    have e: "int (nat ?cnt) * ?W m = ?W (Suc m)"
      using cnt by (simp add: window_count_Suc mult.commute)
    have c: "v + int (nat ?cnt) * ?W m \<le> cap" using Suc.prems(2) e by simp
    have gt: "Suc m > 1" using False by simp
    have "\<exists>pos' v' d'.
        repeat_opt (nat ?cnt) (fits_read_subimg1 m pNaxis pStart pEnd file bitpix) (p1, v, d) =
          Some (pos', v', d') \<and>
        v \<le> v' \<and> v' \<le> v + int (nat ?cnt) * ?W m \<and> length d' = length d"
      apply (rule repeat_opt_bound [where w = "?W m" and cap = cap])
          apply (rule body; assumption)
         apply (rule W)
        apply (rule Suc.prems(1))
       apply (rule c)
      apply (rule refl)
      done
    then show ?thesis unfolding e by (simp only: gt if_True)
  qed
  then obtain p2 v2 d2 where
    r: "(if Suc m > 1
       then repeat_opt (nat ?cnt) (fits_read_subimg1 m pNaxis pStart pEnd file bitpix) (p1, v, d)
       else read_run file ?sz (pEnd ! 0 - pStart ! 0 + 1) (p1, v, d)) = Some (p2, v2, d2)"
    and b: "v \<le> v2" "v2 \<le> v + ?W (Suc m)" "length d2 = length d" by blast
  obtain p3 where s3: "skip_points ?sz (pNaxis ! m - pEnd ! m - 1) (Suc m) pNaxis (p2, v2, d2) =
      (p3, v2, d2)"
    by (simp add: skip_points_eq)
  have "fits_read_subimg1 (Suc m) pNaxis pStart pEnd file bitpix (pos, v, d) = Some (p3, v2, d2)"
  proof (cases "m = 0")
    case True
    with r have "read_run file ?sz (pEnd ! 0 - pStart ! 0 + 1) (p1, v, d) = Some (p2, v2, d2)"
      by simp
    then show ?thesis using True s1 s3 by (simp add: Let_def)
  next
    case False
    with r have "repeat_opt (nat ?cnt) (fits_read_subimg1 m pNaxis pStart pEnd file bitpix)
                   (p1, v, d) = Some (p2, v2, d2)"
      by simp
    then show ?thesis using False s1 s3 by (simp add: Let_def del: repeat_opt.simps)
  qed
  then show ?case using b by blast
qed

lemma axes_count_Suc: "axes_count pNaxis (Suc m) = axes_count pNaxis m * pNaxis ! m"
  by (simp add: axes_count_def)

lemma axes_count_pos: "\<forall>k<m. 0 < pNaxis ! k \<Longrightarrow> 0 < axes_count pNaxis m"
  by (induction m) (simp_all add: axes_count_def)

lemma last_offset_Suc:
  "last_offset pNaxis pEnd (Suc m) = last_offset pNaxis pEnd m + pEnd ! m * axes_count pNaxis m"
  by (simp add: last_offset_def)

lemma last_offset_nonneg:
  "\<forall>k<m. 0 \<le> pEnd ! k \<and> 0 < pNaxis ! k \<Longrightarrow> 0 \<le> last_offset pNaxis pEnd m"
proof (induction m)
  case 0
  then show ?case by (simp add: last_offset_def)
next
  case (Suc m)
  have "0 < axes_count pNaxis m" using Suc.prems by (simp add: axes_count_pos)
  moreover have "0 \<le> pEnd ! m" using Suc.prems by simp
  ultimately have "0 \<le> pEnd ! m * axes_count pNaxis m" by simp
  then show ?case using Suc by (simp add: last_offset_Suc)
qed

lemma fread_full:
  assumes "0 < sz" "0 < n" "n * sz \<le> length file - pos"
  shows "fst (fread file pos sz n) = n" "snd (snd (fread file pos sz n)) = pos + n * sz"
proof -
  have "n \<le> (length file - pos) div sz"
    using assms by (simp add: less_eq_div_iff_mult_less_eq)
  then show "fst (fread file pos sz n) = n" "snd (snd (fread file pos sz n)) = pos + n * sz"
    using assms by (simp_all add: fread_def Let_def)
qed

lemma fread_short:
  assumes "0 < sz" "0 < n" "length file - pos < n * sz"
  shows "fst (fread file pos sz n) < n" "length file \<le> snd (snd (fread file pos sz n))"
proof -
  have "(length file - pos) div sz < n"
    using assms by (simp add: div_less_iff_less_mult)
  then show "fst (fread file pos sz n) < n" "length file \<le> snd (snd (fread file pos sz n))"
    using assms by (simp_all add: fread_def Let_def)
qed

lemma read_run_dich:
  assumes sz: "0 < sz" and n: "0 < nread"
    and r: "read_run file sz nread (pos, v, d) = Some (pos', v', d')"
  shows "(int pos + sz * nread \<le> int (length file) \<longrightarrow>
            v' = v + nread \<and> int pos' = int pos + sz * nread) \<and>
         (int (length file) < int pos + sz * nread \<longrightarrow>
            v' < v + nread \<and> int (length file) \<le> int pos')"
proof -
  have v': "v' = v + int (fst (fread file pos (nat sz) (nat nread)))"
    and p': "pos' = snd (snd (fread file pos (nat sz) (nat nread)))"
    using r by (auto simp add: read_run_def split: if_splits prod.splits)
  have prod: "sz * nread = int (nat nread * nat sz)"
    using sz n by (simp add: nat_mult_distrib mult.commute)
  have sz': "0 < nat sz" and n': "0 < nat nread" using sz n by simp_all
  show ?thesis
  proof (intro conjI impI)
    assume "int pos + sz * nread \<le> int (length file)"
    then have "nat nread * nat sz \<le> length file - pos" unfolding prod by linarith
    note f = fread_full [OF sz' n' this]
    show "v' = v + nread" using v' f(1) n by simp
    show "int pos' = int pos + sz * nread" using p' f(2) prod by simp
  next
    assume "int (length file) < int pos + sz * nread"
    moreover have "0 < nat nread * nat sz" using sz' n' by simp
    ultimately have "length file - pos < nat nread * nat sz" unfolding prod by linarith
    note f = fread_short [OF sz' n' this]
    show "v' < v + nread" using v' f(1) n by linarith
    show "int (length file) \<le> int pos'" using p' f(2) by simp
  qed
qed

lemma repeat_opt_dich:
  fixes A B len :: int
  assumes body: "\<And>pos v d pos' v' d'. body (pos, v, d) = Some (pos', v', d') \<Longrightarrow>
            (int pos + B \<le> len \<longrightarrow> v' = v + w \<and> int pos' = int pos + A) \<and>
            (len < int pos + B \<longrightarrow> v' < v + w \<and> len \<le> int pos')"
    and A: "0 \<le> A" and B: "0 < B"
  shows "repeat_opt (Suc n) body (pos, v, d) = Some (pos', v', d') \<Longrightarrow>
         (int pos + int n * A + B \<le> len \<longrightarrow>
            v' = v + int (Suc n) * w \<and> int pos' = int pos + int (Suc n) * A) \<and>
         (len < int pos + int n * A + B \<longrightarrow> v' < v + int (Suc n) * w \<and> len \<le> int pos')"
proof (induction n arbitrary: pos v d)
  case 0
  then have "body (pos, v, d) = Some (pos', v', d')"
    by (simp split: option.splits)
  from body [OF this] show ?case by simp
next
  case (Suc n)
  from Suc.prems obtain p1 v1 d1 where b: "body (pos, v, d) = Some (p1, v1, d1)"
    and r: "repeat_opt (Suc n) body (p1, v1, d1) = Some (pos', v', d')"
    by (cases "body (pos, v, d)") auto
  note b1 = body [OF b]
  note ih = Suc.IH [OF r]
  have nA: "0 \<le> int n * A" using A by simp
  have e: "int (Suc n) * A = A + int n * A" "int (Suc (Suc n)) * A = A + (A + int n * A)"
    "int (Suc n) * w = w + int n * w" "int (Suc (Suc n)) * w = w + (w + int n * w)"
    by (simp_all add: algebra_simps)
  show ?case
  proof (intro conjI impI)
    assume c: "int pos + int (Suc n) * A + B \<le> len"
    then have c1: "int pos + B \<le> len" using nA A e by linarith
    then have s1: "v1 = v + w" "int p1 = int pos + A" using b1 by simp_all
    have "int p1 + int n * A + B \<le> len" using c s1 e by linarith
    then have "v' = v1 + int (Suc n) * w" "int pos' = int p1 + int (Suc n) * A"
      using ih by simp_all
    then show "v' = v + int (Suc (Suc n)) * w" "int pos' = int pos + int (Suc (Suc n)) * A"
      using s1 e by linarith+
  next
    assume c: "len < int pos + int (Suc n) * A + B"
    have v1: "v1 \<le> v + w" using b1 by (cases "int pos + B \<le> len") simp_all
    have t: "len < int p1 + int n * A + B"
    proof (cases "int pos + B \<le> len")
      case True
      then have "int p1 = int pos + A" using b1 by simp
      then show ?thesis using c e by linarith
    next
      case False
      then have "len \<le> int p1" using b1 by simp
      then show ?thesis using nA B by linarith
    qed
    then have "v' < v1 + int (Suc n) * w" "len \<le> int pos'" using ih by simp_all
    then show "v' < v + int (Suc (Suc n)) * w" "len \<le> int pos'"
      using v1 e by linarith+
  qed
qed

lemma skip_points_fwd:
  assumes "0 \<le> sz * (n0 * axes_count pNaxis m)"
  shows "\<exists>p. skip_points sz n0 (Suc m) pNaxis (pos, v, d) = (p, v, d) \<and>
             int p = int pos + sz * (n0 * axes_count pNaxis m)"
  using assms by (simp add: skip_points_eq fseek_def)

lemma fits_read_subimg1_dich:
  fixes len :: int
  assumes sz: "0 < fits_size_from_bitpix bitpix" and len: "len = int (length file)"
  shows "\<forall>k<m. 0 \<le> pStart ! k \<and> pStart ! k \<le> pEnd ! k \<and> pEnd ! k < pNaxis ! k \<Longrightarrow>
         fits_read_subimg1 m pNaxis pStart pEnd file bitpix (pos, v, d) = Some (pos', v', d') \<Longrightarrow>
         (int pos + fits_size_from_bitpix bitpix * (last_offset pNaxis pEnd m + 1) \<le> len \<longrightarrow>
            v' = v + window_count pStart pEnd m \<and>
            int pos' = int pos + fits_size_from_bitpix bitpix * axes_count pNaxis m) \<and>
         (len < int pos + fits_size_from_bitpix bitpix * (last_offset pNaxis pEnd m + 1) \<longrightarrow>
            v' < v + window_count pStart pEnd m \<and> len \<le> int pos')"
proof (induction m arbitrary: pos v d pos' v' d')
  case 0
  then show ?case by simp
next
  case (Suc m)
  let ?sz = "fits_size_from_bitpix bitpix"
  let ?S = "axes_count pNaxis m"
  let ?st = "pStart ! m"
  let ?en = "pEnd ! m"
  let ?nx = "pNaxis ! m"
  let ?body = "fits_read_subimg1 m pNaxis pStart pEnd file bitpix"
  define a where "a = ?sz * ?S"
  define b where "b = ?sz * (last_offset pNaxis pEnd m + 1)"
  have inb: "0 \<le> ?st" "?st \<le> ?en" "?en < ?nx" using Suc.prems(1) by simp_all
  have pre: "\<forall>k<m. 0 \<le> pStart ! k \<and> pStart ! k \<le> pEnd ! k \<and> pEnd ! k < pNaxis ! k"
    using Suc.prems(1) by simp
  have nxs: "\<forall>k<m. 0 < pNaxis ! k"
  proof (intro allI impI)
    fix k assume "k < m"
    with pre have "0 \<le> pStart ! k \<and> pStart ! k \<le> pEnd ! k \<and> pEnd ! k < pNaxis ! k" by simp
    then show "0 < pNaxis ! k" by linarith
  qed
  have ens: "\<forall>k<m. 0 \<le> pEnd ! k \<and> 0 < pNaxis ! k"
  proof (intro allI impI)
    fix k assume "k < m"
    with pre have "0 \<le> pStart ! k \<and> pStart ! k \<le> pEnd ! k \<and> pEnd ! k < pNaxis ! k" by simp
    then show "0 \<le> pEnd ! k \<and> 0 < pNaxis ! k" by linarith
  qed
  have Spos: "0 < ?S" using nxs by (rule axes_count_pos)
  have a0: "0 < a" using sz Spos by (simp add: a_def)
  have b0: "0 < b" using sz last_offset_nonneg [OF ens] by (simp add: b_def)
  have sa: "?sz * (n0 * ?S) = n0 * a" for n0 by (simp add: a_def algebra_simps)
  have "0 \<le> ?st * a" using inb a0 by simp
  then obtain p1 where s1: "skip_points ?sz ?st (Suc m) pNaxis (pos, v, d) = (p1, v, d)"
    and p1: "int p1 = int pos + ?st * a"
    using skip_points_fwd [of ?sz ?st pNaxis m pos v d] by (auto simp add: sa)
  let ?mid = "if Suc m > 1 then repeat_opt (nat (?en - ?st + 1)) ?body (p1, v, d)
              else read_run file ?sz (pEnd ! 0 - pStart ! 0 + 1) (p1, v, d)"
  have unf: "fits_read_subimg1 (Suc m) pNaxis pStart pEnd file bitpix (pos, v, d) =
        Option.bind ?mid (\<lambda>s2. Some (skip_points ?sz (?nx - ?en - 1) (Suc m) pNaxis s2))"
  proof (cases "m = 0")
    case True
    with s1 have "skip_points ?sz (pStart ! 0) (Suc 0) pNaxis (pos, v, d) = (p1, v, d)" by simp
    then show ?thesis using True by (simp add: Let_def)
  next
    case False
    then show ?thesis by (simp add: Let_def s1 del: repeat_opt.simps)
  qed
  obtain p2 v2 d2 where mid: "?mid = Some (p2, v2, d2)"
    and fin: "skip_points ?sz (?nx - ?en - 1) (Suc m) pNaxis (p2, v2, d2) = (pos', v', d')"
  proof -
    from Suc.prems(2) unf obtain s2 where "?mid = Some s2"
      "skip_points ?sz (?nx - ?en - 1) (Suc m) pNaxis s2 = (pos', v', d')"
      by (auto simp only: bind_eq_Some_conv option.inject)
    then show ?thesis using that by (cases s2) auto
  qed
  have "0 \<le> (?nx - ?en - 1) * a" using inb a0 by simp
  then obtain p3 where "skip_points ?sz (?nx - ?en - 1) (Suc m) pNaxis (p2, v2, d2) = (p3, v2, d2)"
    and "int p3 = int p2 + (?nx - ?en - 1) * a"
    using skip_points_fwd [of ?sz "?nx - ?en - 1" pNaxis m p2 v2 d2] by (auto simp add: sa)
  with fin have v': "v' = v2" and pos': "int pos' = int p2 + (?nx - ?en - 1) * a" by simp_all
  have lo: "?sz * (last_offset pNaxis pEnd (Suc m) + 1) = b + ?en * a"
    by (simp add: last_offset_Suc a_def b_def algebra_simps)
  have SS: "?sz * axes_count pNaxis (Suc m) = ?nx * a"
    by (simp add: axes_count_Suc a_def algebra_simps)
  have dich2: "(int p1 + (?en - ?st) * a + b \<le> len \<longrightarrow>
            v2 = v + window_count pStart pEnd (Suc m) \<and>
            int p2 = int p1 + (?en - ?st + 1) * a) \<and>
         (len < int p1 + (?en - ?st) * a + b \<longrightarrow>
            v2 < v + window_count pStart pEnd (Suc m) \<and> len \<le> int p2)"
  proof (cases "m = 0")
    case True
    have r: "read_run file ?sz (pEnd ! 0 - pStart ! 0 + 1) (p1, v, d) = Some (p2, v2, d2)"
      using mid True by simp
    have n: "0 < pEnd ! 0 - pStart ! 0 + 1" using inb True by simp
    have a1: "a = ?sz" using True by (simp add: a_def axes_count_def)
    have b1: "b = ?sz" using True by (simp add: b_def last_offset_def)
    have W: "window_count pStart pEnd (Suc m) = pEnd ! 0 - pStart ! 0 + 1"
      using True by (simp add: window_count_def)
    have e: "?sz * (pEnd ! 0 - pStart ! 0 + 1) = (?en - ?st) * a + b"
      "?sz * (pEnd ! 0 - pStart ! 0 + 1) = (?en - ?st + 1) * a"
      using True by (simp_all add: a1 b1 algebra_simps)
    from read_run_dich [OF sz n r] show ?thesis
      unfolding len W e(1) by (simp add: e(2) [symmetric] e(1) add.assoc)
  next
    case False
    obtain n where n: "nat (?en - ?st + 1) = Suc n" and n': "int n = ?en - ?st"
    proof -
      have "nat (?en - ?st + 1) = Suc (nat (?en - ?st))" using inb by simp
      moreover have "int (nat (?en - ?st)) = ?en - ?st" using inb by simp
      ultimately show ?thesis using that by blast
    qed
    have r: "repeat_opt (Suc n) ?body (p1, v, d) = Some (p2, v2, d2)"
      using mid False n by (simp del: repeat_opt.simps)
    have body: "(int pos + b \<le> len \<longrightarrow> v' = v + window_count pStart pEnd m \<and>
                   int pos' = int pos + a) \<and>
                (len < int pos + b \<longrightarrow> v' < v + window_count pStart pEnd m \<and> len \<le> int pos')"
      if "?body (pos, v, d) = Some (pos', v', d')" for pos v d pos' v' d'
      using Suc.IH [OF pre that] by (simp add: a_def b_def)
    have W: "window_count pStart pEnd (Suc m) = int (Suc n) * window_count pStart pEnd m"
      unfolding window_count_Suc n' [symmetric] by (simp add: algebra_simps)
    have e: "int (Suc n) * a = (?en - ?st + 1) * a"
      unfolding n' [symmetric] by (simp add: algebra_simps)
    from repeat_opt_dich [of ?body b len "window_count pStart pEnd m" a n p1 v d p2 v2 d2,
        OF body _ b0 r] a0
    show ?thesis unfolding W e [symmetric] n' [symmetric] by simp
  qed
  have c: "int pos + ?sz * (last_offset pNaxis pEnd (Suc m) + 1) = int p1 + (?en - ?st) * a + b"
    unfolding lo p1 by (simp add: algebra_simps)
  have skip0: "0 \<le> (?nx - ?en - 1) * a" using inb a0 by simp
  show ?case
  proof (intro conjI impI)
    assume "int pos + ?sz * (last_offset pNaxis pEnd (Suc m) + 1) \<le> len"
    then have d: "v2 = v + window_count pStart pEnd (Suc m)"
      "int p2 = int p1 + (?en - ?st + 1) * a"
      using dich2 c by simp_all
    show "v' = v + window_count pStart pEnd (Suc m)" using v' d by simp
    show "int pos' = int pos + ?sz * axes_count pNaxis (Suc m)"
      unfolding SS pos' d(2) p1 by (simp add: algebra_simps)
  next
    assume "len < int pos + ?sz * (last_offset pNaxis pEnd (Suc m) + 1)"
    then have d: "v2 < v + window_count pStart pEnd (Suc m)" "len \<le> int p2"
      using dich2 c by simp_all
    show "v' < v + window_count pStart pEnd (Suc m)" using v' d by simp
    show "len \<le> int pos'" using pos' d(2) skip0 by linarith
  qed
qed

end
